theory Spec2Isabelle
  imports Complex_Main "HOL-Library.Word" "HOL-Library.Log_Nat"
begin

unbundle bit_operations_syntax

section \<open>Numbers, errors and arrays\<close>

text \<open>
  The library computes on JavaScript numbers. Finite numbers are modelled as
  mathematical reals. The preprocessor is modelled with the rounding of its arithmetic
  (IEEE doubles, and the single-precision cells of a \<^verbatim>\<open>Float32Array\<close>); the transforms,
  the correlation and the confidence are modelled over exact reals, and every theorem
  about them is about exact real arithmetic. The values where a
  JavaScript number is not a real are kept apart: \<open>NaN\<close> (the result of arithmetic on an
  out-of-range array read, or of \<open>0 / 0\<close>) and the two infinities (a nonzero number
  divided by zero).
\<close>

datatype jsnum = Num real | NaN | PosInf | NegInf

text \<open>The complex sample of \<^verbatim>\<open>fft.ts\<close>: \<^verbatim>\<open>type Complex = [number, number]\<close>.\<close>

type_synonym Complex = "real \<times> real"

text \<open>
  The faults the numeric core can raise: the \<^verbatim>\<open>Error\<close> thrown by the transforms for a
  bad length, and the \<^verbatim>\<open>RangeError\<close> of the typed-array constructor and of
  \<^verbatim>\<open>TypedArray.prototype.set\<close>.
\<close>

datatype error = LengthError | RangeError

section \<open>Peak resolver: \<^verbatim>\<open>findPeakOffset\<close>\<close>

text \<open>
  The scan keeps \<^verbatim>\<open>maxValue\<close> (initially \<^verbatim>\<open>-Infinity\<close>, here \<open>None\<close>) and
  \<^verbatim>\<open>maxIndex\<close> (initially 0). \<open>scanStep\<close> is the body of the loop at index \<open>i\<close>;
  the loop runs over \<open>0, ..., length - 1\<close> in order.
\<close>

definition gtMax :: "real \<Rightarrow> real option \<Rightarrow> bool" where
  "gtMax x maxValue = (case maxValue of None \<Rightarrow> True | Some m \<Rightarrow> x > m)"

definition scanStep :: "real list \<Rightarrow> real option \<times> nat \<Rightarrow> nat \<Rightarrow> real option \<times> nat" where
  "scanStep correlation s i =
     (case s of (maxValue, maxIndex) \<Rightarrow>
        if gtMax (correlation ! i) maxValue then (Some (correlation ! i), i)
        else (maxValue, maxIndex))"

definition peakScan :: "real list \<Rightarrow> real option \<times> nat" where
  "peakScan correlation = foldl (scanStep correlation) (None, 0) [0..<length correlation]"

definition findPeakOffset :: "real list \<Rightarrow> int \<Rightarrow> int" where
  "findPeakOffset correlation signalBLength =
     (let maxIndex = snd (peakScan correlation);
          n = length correlation
      in if real maxIndex > real n / 2 then int maxIndex - int n else int maxIndex)"

section \<open>Confidence scorer: \<^verbatim>\<open>calculateConfidence\<close>\<close>

text \<open>
  \<^verbatim>\<open>correlation[k]\<close> is \<^verbatim>\<open>undefined\<close> when \<open>k\<close> is outside the array (here \<open>None\<close>);
  \<^verbatim>\<open>Math.abs(undefined)\<close> is \<open>NaN\<close>, and so is its quotient. Each energy is
  a left fold over the samples.
\<close>

definition readAt :: "real list \<Rightarrow> int \<Rightarrow> real option" where
  "readAt xs k = (if 0 \<le> k \<and> k < int (length xs) then Some (xs ! nat k) else None)"

definition energy :: "real list \<Rightarrow> real" where
  "energy signal = foldl (\<lambda>e x. e + x * x) 0 signal"

definition calculateConfidence :: "real list \<Rightarrow> real list \<Rightarrow> real list \<Rightarrow> int \<Rightarrow> jsnum" where
  "calculateConfidence signalA signalB correlation peakIndex =
     (let maxCorr = readAt correlation
                      (if peakIndex < 0 then int (length correlation) + peakIndex else peakIndex);
          energyA = energy signalA;
          energyB = energy signalB;
          normFactor = sqrt (energyA * energyB)
      in if normFactor = 0 then Num 0
         else (case maxCorr of None \<Rightarrow> NaN | Some v \<Rightarrow> Num (\<bar>v\<bar> / normFactor)))"

section \<open>Rounding: IEEE doubles and \<^verbatim>\<open>Float32Array\<close> cells\<close>

text \<open>
  A JavaScript number is an IEEE 754 double (53 significant bits, least normal
  exponent \<open>-1022\<close>); a cell of a \<^verbatim>\<open>Float32Array\<close> holds a single (24 significant
  bits, least normal exponent \<open>-126\<close>). The result of an arithmetic operation, and
  of a store into a cell, is the exact value rounded to the nearest value of the
  format, a tie going to the even significand. \<open>roundToFloat p emin x\<close> is that
  value for the real \<open>x\<close>: \<open>e\<close> is the binary exponent of \<open>x\<close>, held at \<open>emin\<close> in
  the subnormal range, \<open>u\<close> is the distance between neighbouring values of the format
  at that exponent, and \<open>x\<close> is moved to the nearest multiple of \<open>u\<close>. A result
  beyond the largest finite value of the format, which the machine replaces by an
  infinity, is outside the model; \<open>isFloat32\<close> holds of the finite values that a
  \<^verbatim>\<open>Float32Array\<close> cell can hold.
\<close>

definition nearestEven :: "real \<Rightarrow> int" where
  "nearestEven q =
     (let f = \<lfloor>q\<rfloor> in
      if q - of_int f < 1 / 2 then f
      else if q - of_int f > 1 / 2 then f + 1
      else if even f then f else f + 1)"

definition roundToFloat :: "nat \<Rightarrow> int \<Rightarrow> real \<Rightarrow> real" where
  "roundToFloat p emin x =
     (if x = 0 then 0
      else let e = max \<lfloor>log 2 \<bar>x\<bar>\<rfloor> emin;
               u = 2 powr real_of_int (e - int p + 1)
           in u * real_of_int (nearestEven (x / u)))"

definition toDouble :: "real \<Rightarrow> real" where
  "toDouble x = roundToFloat 53 (- 1022) x"

definition fround :: "real \<Rightarrow> real" where
  "fround x = roundToFloat 24 (- 126) x"


section \<open>Preprocessor: \<^verbatim>\<open>preprocessAudio\<close>\<close>

text \<open>
  The samples are the cells of a \<^verbatim>\<open>Float32Array\<close>. \<^verbatim>\<open>sum\<close> is a double that
  accumulates them one by one, each addition rounded; \<^verbatim>\<open>mean\<close> is the rounded
  quotient. \<^verbatim>\<open>result\<close> is a \<^verbatim>\<open>Float32Array\<close>: the double \<^verbatim>\<open>samples[i] - mean\<close>,
  and later the double \<^verbatim>\<open>result[i] / maxAbs\<close>, is rounded once more when it is
  stored. \<^verbatim>\<open>maxAbs\<close> is a maximum of absolute values of cells, which needs no
  rounding. For an empty input the source's mean is \<open>0 / 0 = NaN\<close>, but no pass over
  the samples runs its body and the empty array is returned; the model agrees, its
  mean being unused there.
\<close>

definition preprocessAudio :: "real list \<Rightarrow> real list" where
  "preprocessAudio samples =
     (let sum = foldl (\<lambda>s x. toDouble (s + x)) 0 samples;
          mean = toDouble (sum / real (length samples));
          result = map (\<lambda>x. fround (toDouble (x - mean))) samples;
          maxAbs = foldl (\<lambda>m r. max m \<bar>r\<bar>) 0 result
      in if maxAbs > 0 then map (\<lambda>r. fround (toDouble (r / maxAbs))) result else result)"

section \<open>Transform engine: \<^verbatim>\<open>fft\<close>, \<^verbatim>\<open>fftComplex\<close>, \<^verbatim>\<open>ifft\<close>\<close>

text \<open>
  The bitwise operators of JavaScript work on the 32-bit two's complement image of
  their operands (\<^verbatim>\<open>ToInt32\<close>) and give a signed 32-bit result; the shift count of
  \<^verbatim>\<open><<\<close> is taken modulo 32.
\<close>

definition bitAnd32 :: "int \<Rightarrow> int \<Rightarrow> int" where
  "bitAnd32 a b = sint ((word_of_int a :: 32 word) AND word_of_int b)"

definition shiftLeft32 :: "int \<Rightarrow> int \<Rightarrow> int" where
  "shiftLeft32 a k = sint (push_bit (nat (k mod 32)) (word_of_int a :: 32 word))"

text \<open>
  \<^verbatim>\<open>nextPowerOfTwo(n) = 1 << Math.ceil(Math.log2(n))\<close>. For \<open>n < 0\<close> the logarithm is
  \<open>NaN\<close> and for \<open>n = 0\<close> it is \<^verbatim>\<open>-Infinity\<close>; both convert to the shift count 0.
  The logarithm and its ceiling are taken exactly.
\<close>

definition nextPowerOfTwo :: "int \<Rightarrow> int" where
  "nextPowerOfTwo n = (if n \<le> 0 then 1 else shiftLeft32 1 \<lceil>log 2 (real_of_int n)\<rceil>)"

text \<open>
  \<^verbatim>\<open>padToPowerOfTwo\<close>: \<^verbatim>\<open>new Float32Array(targetLength)\<close> raises a
  \<^verbatim>\<open>RangeError\<close> for a negative length, and \<^verbatim>\<open>padded.set(arr)\<close> raises one when
  \<open>arr\<close> does not fit; otherwise the cells beyond \<open>arr\<close> keep their initial zero.
\<close>

definition padToPowerOfTwo :: "real list \<Rightarrow> int \<Rightarrow> error + real list" where
  "padToPowerOfTwo arr targetLength =
     (if targetLength < 0 then Inl RangeError
      else if int (length arr) > targetLength then Inl RangeError
      else Inr (arr @ replicate (nat targetLength - length arr) 0))"

definition twiddle :: "nat \<Rightarrow> nat \<Rightarrow> Complex" where
  "twiddle k n = (let angle = - 2 * pi * real k / real n in (cos angle, sin angle))"

text \<open>
  The combining loop of both transforms: for every \<open>k < n / 2\<close> it writes cell \<open>k\<close>
  and cell \<open>k + n / 2\<close> of the result, so the result is the list of the sums followed
  by the list of the differences.
\<close>

definition butterfly :: "nat \<Rightarrow> Complex list \<Rightarrow> Complex list \<Rightarrow> Complex list" where
  "butterfly n evenFFT oddFFT =
     (let t = (\<lambda>k. let tw = twiddle k n in
                 (fst tw * fst (oddFFT ! k) - snd tw * snd (oddFFT ! k),
                  fst tw * snd (oddFFT ! k) + snd tw * fst (oddFFT ! k)))
      in map (\<lambda>k. (fst (evenFFT ! k) + fst (t k), snd (evenFFT ! k) + snd (t k))) [0..<n div 2] @
         map (\<lambda>k. (fst (evenFFT ! k) - fst (t k), snd (evenFFT ! k) - snd (t k))) [0..<n div 2])"

text \<open>
  The transforms recurse on the even and the odd half. A call that never returns is
  the value \<open>None\<close>; a raised error is \<open>Some (Inl e)\<close>. When the guard lets a
  length \<open>n\<close> through, \<open>n\<close> is 0 or even (array lengths are below \<open>2 ^ 32\<close>), so
  \<open>n / 2\<close> is the integer \<open>n div 2\<close>.
\<close>

partial_function (option) fft :: "real list \<Rightarrow> (error + Complex list) option" where
  "fft input =
     (let n = length input in
      if n = 1 then Some (Inr [(input ! 0, 0)])
      else if bitAnd32 (int n) (int n - 1) \<noteq> 0 then Some (Inl LengthError)
      else
        let even = map (\<lambda>i. input ! (2 * i)) [0..<n div 2];
            odd = map (\<lambda>i. input ! (2 * i + 1)) [0..<n div 2]
        in Option.bind (fft even) (\<lambda>evenFFT.
             case evenFFT of Inl e \<Rightarrow> Some (Inl e)
             | Inr evenFFT \<Rightarrow> Option.bind (fft odd) (\<lambda>oddFFT.
                 case oddFFT of Inl e \<Rightarrow> Some (Inl e)
                 | Inr oddFFT \<Rightarrow> Some (Inr (butterfly n evenFFT oddFFT)))))"

partial_function (option) fftComplex :: "Complex list \<Rightarrow> (error + Complex list) option" where
  "fftComplex input =
     (let n = length input in
      if n = 1 then Some (Inr [input ! 0])
      else if bitAnd32 (int n) (int n - 1) \<noteq> 0 then Some (Inl LengthError)
      else
        let even = map (\<lambda>i. input ! (2 * i)) [0..<n div 2];
            odd = map (\<lambda>i. input ! (2 * i + 1)) [0..<n div 2]
        in Option.bind (fftComplex even) (\<lambda>evenFFT.
             case evenFFT of Inl e \<Rightarrow> Some (Inl e)
             | Inr evenFFT \<Rightarrow> Option.bind (fftComplex odd) (\<lambda>oddFFT.
                 case oddFFT of Inl e \<Rightarrow> Some (Inl e)
                 | Inr oddFFT \<Rightarrow> Some (Inr (butterfly n evenFFT oddFFT)))))"

definition ifft :: "Complex list \<Rightarrow> (error + Complex list) option" where
  "ifft input =
     (let n = length input;
          conjugated = map (\<lambda>(re, im). (re, - im)) input
      in case fftComplex conjugated of
           None \<Rightarrow> None
         | Some (Inl e) \<Rightarrow> Some (Inl e)
         | Some (Inr result) \<Rightarrow>
             Some (Inr (map (\<lambda>(re, im). (re / real n, - im / real n)) result)))"

section \<open>Cross-correlation engine: \<^verbatim>\<open>crossCorrelate\<close>\<close>

text \<open>
  The two transforms have the same length, so \<^verbatim>\<open>fftB[i]\<close> and
  \<^verbatim>\<open>correlation[i]\<close> are always inside their arrays.
\<close>

definition crossCorrelate :: "real list \<Rightarrow> real list \<Rightarrow> (error + real list) option" where
  "crossCorrelate signalA signalB =
     (let n = nextPowerOfTwo (int (length signalA) + int (length signalB) - 1) in
      case padToPowerOfTwo signalA n of Inl e \<Rightarrow> Some (Inl e) | Inr paddedA \<Rightarrow>
      case padToPowerOfTwo signalB n of Inl e \<Rightarrow> Some (Inl e) | Inr paddedB \<Rightarrow>
      case fft paddedA of None \<Rightarrow> None | Some (Inl e) \<Rightarrow> Some (Inl e) | Some (Inr fftA) \<Rightarrow>
      case fft paddedB of None \<Rightarrow> None | Some (Inl e) \<Rightarrow> Some (Inl e) | Some (Inr fftB) \<Rightarrow>
      let product = map (\<lambda>i. let a = fftA ! i; b = fftB ! i in
                           (fst a * fst b + snd a * snd b, snd a * fst b - fst a * snd b))
                        [0..<length fftA]
      in case ifft product of None \<Rightarrow> None | Some (Inl e) \<Rightarrow> Some (Inl e)
         | Some (Inr correlation) \<Rightarrow>
             Some (Inr (map (\<lambda>i. fst (correlation ! i)) [0..<nat n])))"

section \<open>Multi-stream aligner: \<^verbatim>\<open>AudioVideoSync.syncVideos\<close>\<close>

text \<open>
  Strings are byte strings in UTF-8. A \<^verbatim>\<open>Date\<close> is its time value in milliseconds
  (\<open>NaN\<close> for an invalid date); \<^verbatim>\<open>new Date(t)\<close> clips \<open>t\<close> to an integer of
  magnitude at most \<open>8.64e15\<close>. A number divided by zero is an infinity of its sign, and
  \<open>0 / 0\<close> is \<open>NaN\<close> (the sample rate, the only divisor here, is never \<open>-0\<close>). The
  fields \<^verbatim>\<open>id\<close> and \<^verbatim>\<open>mono\<close> of the source are \<open>id'\<close> and \<open>mono'\<close> here.
\<close>

type_synonym date = jsnum

definition jsDivide :: "real \<Rightarrow> real \<Rightarrow> jsnum" where
  "jsDivide a b =
     (if b \<noteq> 0 then Num (a / b)
      else if a = 0 then NaN
      else if a > 0 then PosInf else NegInf)"

fun jsTimes :: "jsnum \<Rightarrow> real \<Rightarrow> jsnum" where
  "jsTimes (Num a) c = Num (a * c)"
| "jsTimes NaN c = NaN"
| "jsTimes PosInf c = (if c > 0 then PosInf else if c < 0 then NegInf else NaN)"
| "jsTimes NegInf c = (if c > 0 then NegInf else if c < 0 then PosInf else NaN)"

fun jsMinus :: "jsnum \<Rightarrow> jsnum \<Rightarrow> jsnum" where
  "jsMinus (Num a) (Num b) = Num (a - b)"
| "jsMinus NaN _ = NaN"
| "jsMinus _ NaN = NaN"
| "jsMinus (Num a) PosInf = NegInf"
| "jsMinus (Num a) NegInf = PosInf"
| "jsMinus PosInf PosInf = NaN"
| "jsMinus NegInf NegInf = NaN"
| "jsMinus PosInf _ = PosInf"
| "jsMinus NegInf _ = NegInf"

fun jsGe :: "jsnum \<Rightarrow> real \<Rightarrow> bool" where
  "jsGe (Num a) m = (a \<ge> m)"
| "jsGe PosInf m = True"
| "jsGe _ m = False"

fun newDate :: "jsnum \<Rightarrow> date" where
  "newDate (Num t) =
     (if \<bar>t\<bar> \<le> 8640000000000000
      then Num (if t \<ge> 0 then of_int \<lfloor>t\<rfloor> else of_int \<lceil>t\<rceil>) else NaN)"
| "newDate _ = NaN"

record VideoInput =
  id' :: "string option"
  originalStartTime :: "date option"

record AudioData =
  samples :: "real list"
  sampleRate :: real
  duration :: real
  channels :: nat

record SyncResult =
  id' :: string
  offsetSeconds :: jsnum
  offsetSamples :: int
  confidence :: jsnum
  correctedStartTime :: "date option"

record MultiSyncResult =
  referenceId :: string
  results :: "SyncResult list"
  sampleRate :: real
  success :: bool
  error :: "string option"

text \<open>
  A value thrown inside the \<^verbatim>\<open>try\<close> block is an \<^verbatim>\<open>Error\<close> instance with its
  message, or something else.
\<close>

datatype fault = ErrorInstance string | NonError

text \<open>
  The options of a run. The progress callback is modelled by what it throws, if
  anything, when called with a stage and a fraction. \<open>referenceIndex\<close> is an integer.
\<close>

record SyncOptions =
  referenceIndex :: "int option"
  minConfidence :: "real option"
  onProgress :: "(string \<Rightarrow> real \<Rightarrow> fault option) option"
  sampleRate :: "real option"
  mono' :: "bool option"
  maxDuration :: "real option"

text \<open>
  The collaborators of a run, outside the repository's numeric core: whether loading
  FFmpeg throws, the outcome of the \<open>i\<close>-th call of \<^verbatim>\<open>extractAudio\<close>, and the
  message the engine gives its \<^verbatim>\<open>RangeError\<close>s.
\<close>

record world =
  loadFault :: "fault option"
  extracted :: "nat \<Rightarrow> fault + AudioData"
  rangeErrorMessage :: string

text \<open>
  The messages are Chinese string literals in the source; here they are the bytes of
  their UTF-8 encoding. In order they say: at least 2 videos are needed for
  synchronisation; the reference video index is invalid; the synchronisation confidence
  of some videos is too low; an error occurred during synchronisation; the FFT input
  length must be a power of 2.
\<close>

definition tooFewVideosMessage :: string where
  "tooFewVideosMessage = map char_of [232, 135, 179, 229, 176, 145, 233, 156, 128, 232, 166,
     129, 32, 50, 32, 228, 184, 170, 232, 167, 134, 233, 162, 145, 232, 191, 155, 232, 161,
     140, 229, 144, 140, 230, 173, 165 :: nat]"

definition invalidReferenceMessage :: string where
  "invalidReferenceMessage = map char_of [229, 143, 130, 232, 128, 131, 232, 167, 134, 233,
     162, 145, 231, 180, 162, 229, 188, 149, 230, 151, 160, 230, 149, 136 :: nat]"

definition lowConfidenceMessage :: string where
  "lowConfidenceMessage = map char_of [233, 131, 168, 229, 136, 134, 232, 167, 134, 233, 162,
     145, 229, 144, 140, 230, 173, 165, 231, 189, 174, 228, 191, 161, 229, 186, 166, 232,
     191, 135, 228, 189, 142 :: nat]"

definition genericFaultMessage :: string where
  "genericFaultMessage = map char_of [229, 144, 140, 230, 173, 165, 232, 191, 135, 231, 168,
     139, 229, 143, 145, 231, 148, 159, 233, 148, 153, 232, 175, 175 :: nat]"

definition lengthErrorMessage :: string where
  "lengthErrorMessage = map char_of [70, 70, 84, 32, 232, 190, 147, 229, 133, 165, 233, 149,
     191, 229, 186, 166, 229, 191, 133, 233, 161, 187, 230, 152, 175, 32, 50, 32, 231, 154,
     132, 229, 185, 130, 230, 172, 161 :: nat]"

definition errorFault :: "world \<Rightarrow> error \<Rightarrow> fault" where
  "errorFault w e =
     (case e of LengthError \<Rightarrow> ErrorInstance lengthErrorMessage
      | RangeError \<Rightarrow> ErrorInstance (rangeErrorMessage w))"

text \<open>\<^verbatim>\<open>i.toString()\<close> for an index: its decimal digits.\<close>

fun toString :: "nat \<Rightarrow> string" where
  "toString n =
     (if n < 10 then [char_of (48 + n)]
      else toString (n div 10) @ [char_of (48 + n mod 10)])"

text \<open>\<^verbatim>\<open>s || d\<close> for an optional string: \<^verbatim>\<open>undefined\<close> and the empty string give \<open>d\<close>.\<close>

definition orElse :: "string option \<Rightarrow> string \<Rightarrow> string" where
  "orElse s d = (case s of None \<Rightarrow> d | Some v \<Rightarrow> if v = [] then d else v)"

text \<open>\<^verbatim>\<open>extractOptions.sampleRate || 16000\<close>.\<close>

definition fallbackSampleRate :: "SyncOptions \<Rightarrow> real" where
  "fallbackSampleRate options =
     (case SyncOptions.sampleRate options of None \<Rightarrow> 16000
      | Some r \<Rightarrow> if r = 0 then 16000 else r)"

definition notify :: "SyncOptions \<Rightarrow> string \<Rightarrow> real \<Rightarrow> fault + unit" where
  "notify options stage progress =
     (case onProgress options of None \<Rightarrow> Inr ()
      | Some callback \<Rightarrow> (case callback stage progress of None \<Rightarrow> Inr () | Some f \<Rightarrow> Inl f))"

text \<open>The extraction loop, over the indices still to do; the first fault ends it.\<close>

fun extractLoop ::
  "world \<Rightarrow> SyncOptions \<Rightarrow> nat \<Rightarrow> nat list \<Rightarrow> AudioData list \<Rightarrow> fault + AudioData list" where
  "extractLoop w options count [] audioDataList = Inr audioDataList"
| "extractLoop w options count (i # rest) audioDataList =
     (case notify options ''extracting'' (real (i + 1) / real count) of
        Inl f \<Rightarrow> Inl f
      | Inr _ \<Rightarrow>
         (case extracted w i of
            Inl f \<Rightarrow> Inl f
          | Inr audio \<Rightarrow> extractLoop w options count rest (audioDataList @ [audio])))"

text \<open>
  One pass of the correlation loop for a stream that is not the reference. (A primed
  name is the source's variable of that name, where the plain name is a record field.)
\<close>

definition correlateStream ::
  "world \<Rightarrow> real list \<Rightarrow> VideoInput \<Rightarrow> real \<Rightarrow> string \<Rightarrow> real list
     \<Rightarrow> (fault + SyncResult) option" where
  "correlateStream w referenceAudio referenceVideo sampleRate' videoId targetAudio =
     (case crossCorrelate referenceAudio targetAudio of
        None \<Rightarrow> None
      | Some (Inl e) \<Rightarrow> Some (Inl (errorFault w e))
      | Some (Inr correlation) \<Rightarrow>
          let offsetSamples' = findPeakOffset correlation (int (length targetAudio));
              offsetSeconds' = jsDivide (real_of_int offsetSamples') sampleRate';
              confidence' = calculateConfidence referenceAudio targetAudio correlation offsetSamples';
              correctedStartTime' =
                (case originalStartTime referenceVideo of
                   None \<Rightarrow> None
                 | Some start \<Rightarrow> Some (newDate (jsMinus start (jsTimes offsetSeconds' 1000))))
          in Some (Inr \<lparr> id' = videoId, offsetSeconds = offsetSeconds',
                          offsetSamples = offsetSamples', confidence = confidence',
                          correctedStartTime = correctedStartTime' \<rparr>))"

fun correlateLoop ::
  "world \<Rightarrow> SyncOptions \<Rightarrow> VideoInput list \<Rightarrow> real list list \<Rightarrow> nat \<Rightarrow> real
     \<Rightarrow> nat list \<Rightarrow> SyncResult list \<Rightarrow> (fault + SyncResult list) option" where
  "correlateLoop w options videos processedAudio referenceIndex' sampleRate' [] results' =
     Some (Inr results')"
| "correlateLoop w options videos processedAudio referenceIndex' sampleRate' (i # rest) results' =
     (case notify options ''correlating'' (real (i + 1) / real (length videos)) of
        Inl f \<Rightarrow> Some (Inl f)
      | Inr _ \<Rightarrow>
         let video = videos ! i;
             videoId = orElse (VideoInput.id' video) (toString i)
         in if i = referenceIndex'
            then correlateLoop w options videos processedAudio referenceIndex' sampleRate' rest
                   (results' @ [\<lparr> id' = videoId, offsetSeconds = Num 0, offsetSamples = 0,
                                   confidence = Num 1,
                                   correctedStartTime = originalStartTime video \<rparr>])
            else (case correlateStream w (processedAudio ! referenceIndex')
                         (videos ! referenceIndex') sampleRate' videoId (processedAudio ! i) of
                    None \<Rightarrow> None
                  | Some (Inl f) \<Rightarrow> Some (Inl f)
                  | Some (Inr r) \<Rightarrow>
                      correlateLoop w options videos processedAudio referenceIndex' sampleRate'
                        rest (results' @ [r])))"

text \<open>The body of the \<^verbatim>\<open>try\<close> block.\<close>

definition tryBlock ::
  "world \<Rightarrow> VideoInput list \<Rightarrow> SyncOptions \<Rightarrow> nat \<Rightarrow> real
     \<Rightarrow> (fault + MultiSyncResult) option" where
  "tryBlock w videos options referenceIndex' minConfidence' =
     (case loadFault w of
        Some f \<Rightarrow> Some (Inl f)
      | None \<Rightarrow>
         (case extractLoop w options (length videos) [0..<length videos] [] of
            Inl f \<Rightarrow> Some (Inl f)
          | Inr audioDataList \<Rightarrow>
             let processedAudio = map (\<lambda>a. preprocessAudio (samples a)) audioDataList;
                 referenceVideo = videos ! referenceIndex';
                 sampleRate' = AudioData.sampleRate (audioDataList ! referenceIndex')
             in (case correlateLoop w options videos processedAudio referenceIndex' sampleRate'
                        [0..<length videos] [] of
                   None \<Rightarrow> None
                 | Some (Inl f) \<Rightarrow> Some (Inl f)
                 | Some (Inr results') \<Rightarrow>
                     let allSuccessful = list_all (\<lambda>r. jsGe (confidence r) minConfidence') results'
                     in Some (Inr \<lparr> referenceId =
                                       orElse (VideoInput.id' referenceVideo) (toString referenceIndex'),
                                     results = results',
                                     sampleRate = sampleRate',
                                     success = allSuccessful,
                                     error = (if allSuccessful then None
                                              else Some lowConfidenceMessage) \<rparr>))))"

text \<open>
  \<^verbatim>\<open>syncVideos\<close>: the two precondition checks, then the \<^verbatim>\<open>try\<close> block and its
  \<^verbatim>\<open>catch\<close>. \<open>None\<close> is a run that never returns.
\<close>

definition syncVideos :: "world \<Rightarrow> VideoInput list \<Rightarrow> SyncOptions \<Rightarrow> MultiSyncResult option" where
  "syncVideos w videos options =
     (let referenceIndex' = (case referenceIndex options of None \<Rightarrow> 0 | Some r \<Rightarrow> r);
          minConfidence' = (case minConfidence options of None \<Rightarrow> 3 / 10 | Some m \<Rightarrow> m)
      in if length videos < 2
         then Some \<lparr> referenceId = (case videos of [] \<Rightarrow> ''0''
                                      | v # _ \<Rightarrow> orElse (VideoInput.id' v) ''0''),
                      results = [],
                      sampleRate = fallbackSampleRate options,
                      success = False,
                      error = Some tooFewVideosMessage \<rparr>
         else if referenceIndex' < 0 \<or> referenceIndex' \<ge> int (length videos)
         then Some \<lparr> referenceId = [],
                      results = [],
                      sampleRate = fallbackSampleRate options,
                      success = False,
                      error = Some invalidReferenceMessage \<rparr>
         else (case tryBlock w videos options (nat referenceIndex') minConfidence' of
                 None \<Rightarrow> None
               | Some (Inr r) \<Rightarrow> Some r
               | Some (Inl f) \<Rightarrow>
                   Some \<lparr> referenceId = orElse (VideoInput.id' (videos ! nat referenceIndex'))
                                           (toString (nat referenceIndex')),
                          results = [],
                          sampleRate = fallbackSampleRate options,
                          success = False,
                          error = Some (case f of ErrorInstance m \<Rightarrow> m
                                        | NonError \<Rightarrow> genericFaultMessage) \<rparr>))"

section \<open>Reference: the discrete Fourier transform\<close>

text \<open>
  What the transforms are measured against: a pair read as a complex number, the
  primitive \<open>n\<close>-th root of unity \<open>exp (- 2 \<pi> i / n)\<close>, and the transform as the
  plain sum \<open>\<Sum>j<n. f j * unityRoot n ^ (j * k)\<close>.
\<close>

definition cplx :: "Complex \<Rightarrow> complex" where
  "cplx z = Complex (fst z) (snd z)"

definition unityRoot :: "nat \<Rightarrow> complex" where
  "unityRoot n = cis (- 2 * pi / real n)"

definition dft :: "nat \<Rightarrow> (nat \<Rightarrow> complex) \<Rightarrow> nat \<Rightarrow> complex" where
  "dft n f k = (\<Sum>j<n. f j * unityRoot n ^ (j * k))"

section \<open>Runs without faults, and two sample runs\<close>







section \<open>Properties of the peak resolver\<close>

lemma scan_invariant:
  assumes "k \<le> length xs" "0 < k"
  shows "\<exists>i<k. foldl (scanStep xs) (None, 0) [0..<k] = (Some (xs ! i), i)
            \<and> (\<forall>j<k. xs ! j \<le> xs ! i) \<and> (\<forall>j<i. xs ! j < xs ! i)"
  using assms
proof (induction k)
  case 0
  then show ?case by simp
next
  case (Suc k)
  show ?case
  proof (cases "k = 0")
    case True
    then show ?thesis by (simp add: scanStep_def gtMax_def)
  next
    case False
    with Suc obtain i where i: "i < k"
      "foldl (scanStep xs) (None, 0) [0..<k] = (Some (xs ! i), i)"
      "\<forall>j<k. xs ! j \<le> xs ! i" "\<forall>j<i. xs ! j < xs ! i"
      by auto
    show ?thesis
    proof (cases "xs ! k > xs ! i")
      case True
      have "foldl (scanStep xs) (None, 0) [0..<Suc k] = (Some (xs ! k), k)"
        using i(2) True by (simp add: scanStep_def gtMax_def)
      moreover have "\<forall>j<Suc k. xs ! j \<le> xs ! k"
        using i(3) True by (auto simp: less_Suc_eq intro: order_trans)
      moreover have "\<forall>j<k. xs ! j < xs ! k"
        using i(3) True by (auto intro: le_less_trans)
      ultimately show ?thesis by blast
    next
      case False
      have "foldl (scanStep xs) (None, 0) [0..<Suc k] = (Some (xs ! i), i)"
        using i(2) False by (simp add: scanStep_def gtMax_def)
      moreover have "\<forall>j<Suc k. xs ! j \<le> xs ! i"
        using i(3) False by (auto simp: less_Suc_eq)
      ultimately show ?thesis using i(1,4) less_Suc_eq by blast
    qed
  qed
qed

lemma peakScan_first_maximum:
  assumes "xs \<noteq> []"
  shows "\<exists>i<length xs. snd (peakScan xs) = i
            \<and> (\<forall>j<length xs. xs ! j \<le> xs ! i) \<and> (\<forall>j<i. xs ! j < xs ! i)"
proof -
  from assms have "0 < length xs" by simp
  from scan_invariant [OF order_refl this] show ?thesis
    unfolding peakScan_def by force
qed

text \<open>
  C3. For a non-empty correlation sequence of length \<open>N\<close>, \<open>findPeakOffset\<close> picks the
  index \<open>i\<close> of the greatest value, the earliest one among equals (every earlier value
  is strictly smaller: the comparison is a strict \<open>>\<close>), and returns \<open>i - N\<close> when
  \<open>i > N / 2\<close> and \<open>i\<close> otherwise; a flat sequence gives offset 0.
\<close>

theorem findPeakOffset_first_maximum:
  assumes "correlation \<noteq> []"
  shows "\<exists>i<length correlation.
           (\<forall>j<length correlation. correlation ! j \<le> correlation ! i)
         \<and> (\<forall>j<i. correlation ! j < correlation ! i)
         \<and> findPeakOffset correlation signalBLength =
             (if real i > real (length correlation) / 2
              then int i - int (length correlation) else int i)
         \<and> ((\<forall>j<length correlation. correlation ! j = correlation ! 0)
              \<longrightarrow> findPeakOffset correlation signalBLength = 0)"
proof -
  from peakScan_first_maximum [OF assms] obtain i where i: "i < length correlation"
    "snd (peakScan correlation) = i"
    "\<forall>j<length correlation. correlation ! j \<le> correlation ! i"
    "\<forall>j<i. correlation ! j < correlation ! i"
    by blast
  have off: "findPeakOffset correlation signalBLength =
             (if real i > real (length correlation) / 2
              then int i - int (length correlation) else int i)"
    using i(2) by (simp add: findPeakOffset_def)
  have flat: "findPeakOffset correlation signalBLength = 0"
    if "\<forall>j<length correlation. correlation ! j = correlation ! 0"
  proof -
    have "i = 0"
    proof (rule ccontr)
      assume "i \<noteq> 0"
      then have "correlation ! 0 < correlation ! i" using i(4) by simp
      with that i(1) show False by simp
    qed
    then show ?thesis using off by simp
  qed
  from i(1,3,4) off flat show ?thesis by blast
qed

theorem findPeakOffset_first_maximum_witness:
  "[1, 5, 5, 2 :: real] \<noteq> [] \<and>
   (\<exists>i<length [1, 5, 5, 2 :: real].
           (\<forall>j<length [1, 5, 5, 2 :: real]. [1, 5, 5, 2 :: real] ! j \<le> [1, 5, 5, 2] ! i)
         \<and> (\<forall>j<i. [1, 5, 5, 2 :: real] ! j < [1, 5, 5, 2] ! i)
         \<and> findPeakOffset [1, 5, 5, 2] 4 =
             (if real i > real (length [1, 5, 5, 2 :: real]) / 2
              then int i - int (length [1, 5, 5, 2 :: real]) else int i)
         \<and> ((\<forall>j<length [1, 5, 5, 2 :: real]. [1, 5, 5, 2 :: real] ! j = [1, 5, 5, 2] ! 0)
              \<longrightarrow> findPeakOffset [1, 5, 5, 2] 4 = 0))"
  using findPeakOffset_first_maximum [of "[1, 5, 5, 2]" 4] by blast

section \<open>Properties of the confidence scorer, the preprocessor and the preconditions\<close>

lemma foldl_energy: "foldl (\<lambda>e x. e + x * x) a xs = a + (\<Sum>x\<leftarrow>xs. x * x)" for a :: real
  by (induction xs arbitrary: a) simp_all

lemma energy_sum_list: "energy xs = (\<Sum>x\<leftarrow>xs. x * x)"
  by (simp add: energy_def foldl_energy)

lemma sumsq_nonneg: "0 \<le> (\<Sum>x\<leftarrow>xs. x * x)" for xs :: "real list"
  by (induction xs) simp_all

lemma sumsq_zero_iff: "(\<Sum>x\<leftarrow>xs. x * x) = 0 \<longleftrightarrow> (\<forall>x\<in>set xs. x = 0)" for xs :: "real list"
proof (induction xs)
  case Nil
  show ?case by simp
next
  case (Cons a xs)
  have "a * a + (\<Sum>x\<leftarrow>xs. x * x) = 0 \<longleftrightarrow> a * a = 0 \<and> (\<Sum>x\<leftarrow>xs. x * x) = 0"
    by (rule add_nonneg_eq_0_iff) (simp_all add: sumsq_nonneg)
  with Cons show ?case by simp
qed

lemma normFactor_zero_iff:
  "sqrt (energy a * energy b) = 0 \<longleftrightarrow> (\<Sum>x\<leftarrow>a. x * x) = 0 \<or> (\<Sum>x\<leftarrow>b. x * x) = 0"
  by (simp add: energy_sum_list)

lemma confidence_zero_energy:
  assumes "(\<Sum>x\<leftarrow>a. x * x) = 0 \<or> (\<Sum>x\<leftarrow>b. x * x) = 0"
  shows "calculateConfidence a b correlation peakIndex = Num 0"
  using assms normFactor_zero_iff [of a b] by (simp add: calculateConfidence_def Let_def)

lemma confidence_in_range:
  assumes "(\<Sum>x\<leftarrow>a. x * x) \<noteq> 0" "(\<Sum>x\<leftarrow>b. x * x) \<noteq> 0"
    and "0 \<le> k" "k < int (length correlation)"
    and "k = (if peakIndex < 0 then int (length correlation) + peakIndex else peakIndex)"
  shows "calculateConfidence a b correlation peakIndex =
           Num (\<bar>correlation ! nat k\<bar> / sqrt ((\<Sum>x\<leftarrow>a. x * x) * (\<Sum>x\<leftarrow>b. x * x)))"
proof -
  have "sqrt (energy a * energy b) \<noteq> 0"
    using assms(1,2) normFactor_zero_iff [of a b] by simp
  moreover have "readAt correlation k = Some (correlation ! nat k)"
    using assms(3,4) by (simp add: readAt_def)
  ultimately show ?thesis
    using assms(5) by (simp add: calculateConfidence_def Let_def energy_sum_list)
qed

lemma confidence_out_of_range:
  assumes "(\<Sum>x\<leftarrow>a. x * x) \<noteq> 0 \<and> (\<Sum>x\<leftarrow>b. x * x) \<noteq> 0
        \<and> (int (length correlation) \<le> peakIndex \<or> peakIndex < - int (length correlation))"
  shows "calculateConfidence a b correlation peakIndex = NaN"
proof -
  have "sqrt (energy a * energy b) \<noteq> 0"
    using assms normFactor_zero_iff [of a b] by simp
  moreover have "readAt correlation
      (if peakIndex < 0 then int (length correlation) + peakIndex else peakIndex) = None"
    using assms by (auto simp: readAt_def)
  ultimately show ?thesis
    by (simp add: calculateConfidence_def Let_def)
qed

lemma confidence_nonneg:
  assumes "calculateConfidence a b correlation peakIndex = Num r"
  shows "0 \<le> r"
proof (cases "sqrt (energy a * energy b) = 0")
  case True
  with assms show ?thesis by (simp add: calculateConfidence_def Let_def)
next
  case False
  with assms show ?thesis
    by (auto simp: calculateConfidence_def Let_def energy_sum_list sumsq_nonneg
             split: option.splits)
qed

lemma confidence_not_infinite:
  "calculateConfidence a b correlation peakIndex \<noteq> NegInf"
  "calculateConfidence a b correlation peakIndex \<noteq> PosInf"
  by (simp_all add: calculateConfidence_def Let_def split: option.splits)

text \<open>
  C4. With \<open>energyA\<close> and \<open>energyB\<close> the sums of the squares of \<open>a\<close> and \<open>b\<close>:
  \<open>calculateConfidence\<close> returns exactly 0 when either energy is 0; otherwise it
  returns \<open>\<bar>peakValue\<bar> / sqrt (energyA * energyB)\<close>, where \<open>peakValue\<close> is the
  correlation value at index \<open>peakIndex\<close>, or at \<open>N + peakIndex\<close> for a negative
  \<open>peakIndex\<close>; and its result is never a negative number. (For a \<open>peakIndex\<close> that
  names no cell of the correlation sequence there is no peak value, and the result is
  \<open>NaN\<close>.)
\<close>

theorem calculateConfidence_formula:
  "((\<Sum>x\<leftarrow>a. x * x) = 0 \<or> (\<Sum>x\<leftarrow>b. x * x) = 0
      \<longrightarrow> calculateConfidence a b correlation peakIndex = Num 0)
   \<and> ((\<Sum>x\<leftarrow>a. x * x) \<noteq> 0 \<and> (\<Sum>x\<leftarrow>b. x * x) \<noteq> 0 \<and> 0 \<le> peakIndex
        \<and> peakIndex < int (length correlation)
      \<longrightarrow> calculateConfidence a b correlation peakIndex =
            Num (\<bar>correlation ! nat peakIndex\<bar> / sqrt ((\<Sum>x\<leftarrow>a. x * x) * (\<Sum>x\<leftarrow>b. x * x))))
   \<and> ((\<Sum>x\<leftarrow>a. x * x) \<noteq> 0 \<and> (\<Sum>x\<leftarrow>b. x * x) \<noteq> 0 \<and> peakIndex < 0
        \<and> - int (length correlation) \<le> peakIndex
      \<longrightarrow> calculateConfidence a b correlation peakIndex =
            Num (\<bar>correlation ! nat (int (length correlation) + peakIndex)\<bar>
                   / sqrt ((\<Sum>x\<leftarrow>a. x * x) * (\<Sum>x\<leftarrow>b. x * x))))
   \<and> (\<forall>r. calculateConfidence a b correlation peakIndex = Num r \<longrightarrow> 0 \<le> r)
   \<and> calculateConfidence a b correlation peakIndex \<noteq> NegInf
   \<and> ((\<Sum>x\<leftarrow>a. x * x) \<noteq> 0 \<and> (\<Sum>x\<leftarrow>b. x * x) \<noteq> 0
        \<and> (int (length correlation) \<le> peakIndex \<or> peakIndex < - int (length correlation))
      \<longrightarrow> calculateConfidence a b correlation peakIndex = NaN)"
proof (intro conjI impI allI)
  assume "(\<Sum>x\<leftarrow>a. x * x) = 0 \<or> (\<Sum>x\<leftarrow>b. x * x) = 0"
  then show "calculateConfidence a b correlation peakIndex = Num 0"
    by (rule confidence_zero_energy)
next
  assume "(\<Sum>x\<leftarrow>a. x * x) \<noteq> 0 \<and> (\<Sum>x\<leftarrow>b. x * x) \<noteq> 0 \<and> 0 \<le> peakIndex
        \<and> peakIndex < int (length correlation)"
  then show "calculateConfidence a b correlation peakIndex =
            Num (\<bar>correlation ! nat peakIndex\<bar> / sqrt ((\<Sum>x\<leftarrow>a. x * x) * (\<Sum>x\<leftarrow>b. x * x)))"
    using confidence_in_range [of a b peakIndex correlation peakIndex] by simp
next
  assume "(\<Sum>x\<leftarrow>a. x * x) \<noteq> 0 \<and> (\<Sum>x\<leftarrow>b. x * x) \<noteq> 0 \<and> peakIndex < 0
        \<and> - int (length correlation) \<le> peakIndex"
  then show "calculateConfidence a b correlation peakIndex =
            Num (\<bar>correlation ! nat (int (length correlation) + peakIndex)\<bar>
                   / sqrt ((\<Sum>x\<leftarrow>a. x * x) * (\<Sum>x\<leftarrow>b. x * x)))"
    using confidence_in_range [of a b "int (length correlation) + peakIndex" correlation peakIndex]
    by simp
next
  fix r assume "calculateConfidence a b correlation peakIndex = Num r"
  then show "0 \<le> r" by (rule confidence_nonneg)
next
  show "calculateConfidence a b correlation peakIndex \<noteq> NegInf"
    by (rule confidence_not_infinite)
next
  assume "(\<Sum>x\<leftarrow>a. x * x) \<noteq> 0 \<and> (\<Sum>x\<leftarrow>b. x * x) \<noteq> 0
        \<and> (int (length correlation) \<le> peakIndex \<or> peakIndex < - int (length correlation))"
  then show "calculateConfidence a b correlation peakIndex = NaN"
    by (rule confidence_out_of_range)
qed







lemma toDouble_0 [simp]: "toDouble 0 = 0"
  by (simp add: toDouble_def roundToFloat_def)

lemma fround_0 [simp]: "fround 0 = 0"
  by (simp add: fround_def roundToFloat_def)




















lemma message_nonempty:
  "tooFewVideosMessage \<noteq> []" "invalidReferenceMessage \<noteq> []"
  by (simp_all add: tooFewVideosMessage_def invalidReferenceMessage_def)

lemma syncVideos_too_few:
  assumes "length videos < 2"
  shows "syncVideos w videos options =
           Some \<lparr> referenceId = (case videos of [] \<Rightarrow> ''0'' | v # _ \<Rightarrow> orElse (VideoInput.id' v) ''0''),
                  results = [], sampleRate = fallbackSampleRate options, success = False,
                  error = Some tooFewVideosMessage \<rparr>"
  using assms by (simp add: syncVideos_def Let_def)

lemma syncVideos_bad_reference:
  assumes "\<not> length videos < 2"
    and "(case referenceIndex options of None \<Rightarrow> 0 | Some r \<Rightarrow> r) < 0
           \<or> (case referenceIndex options of None \<Rightarrow> 0 | Some r \<Rightarrow> r) \<ge> int (length videos)"
  shows "syncVideos w videos options =
           Some \<lparr> referenceId = [],
                  results = [], sampleRate = fallbackSampleRate options, success = False,
                  error = Some invalidReferenceMessage \<rparr>"
  using assms by (simp add: syncVideos_def Let_def)

text \<open>
  C6. With fewer than 2 streams, or with a reference index outside
  \<open>[0, streamCount)\<close>, \<open>syncVideos\<close> returns a run result with \<open>success = False\<close>,
  a non-empty error message and no results; the result is the same whatever the
  collaborators would do, since none of them is called.
\<close>

theorem syncVideos_precondition_failure:
  assumes "length videos < 2
           \<or> (case referenceIndex options of None \<Rightarrow> 0 | Some r \<Rightarrow> r) < 0
           \<or> (case referenceIndex options of None \<Rightarrow> 0 | Some r \<Rightarrow> r) \<ge> int (length videos)"
  shows "\<exists>r. (\<forall>w. syncVideos w videos options = Some r)
            \<and> success r = False \<and> results r = []
            \<and> (\<exists>m. error r = Some m \<and> m \<noteq> [])"
proof (cases "length videos < 2")
  case True
  let ?r = "\<lparr> referenceId = (case videos of [] \<Rightarrow> ''0'' | v # _ \<Rightarrow> orElse (VideoInput.id' v) ''0''),
              results = [], sampleRate = fallbackSampleRate options, success = False,
              error = Some tooFewVideosMessage \<rparr>"
  have "\<forall>w. syncVideos w videos options = Some ?r"
    using True by (simp add: syncVideos_too_few)
  moreover have "success ?r = False \<and> results ?r = [] \<and> (\<exists>m. error ?r = Some m \<and> m \<noteq> [])"
    by (simp add: message_nonempty)
  ultimately show ?thesis by blast
next
  case False
  let ?r = "\<lparr> referenceId = [],
              results = [], sampleRate = fallbackSampleRate options, success = False,
              error = Some invalidReferenceMessage \<rparr>"
  have "\<forall>w. syncVideos w videos options = Some ?r"
    using False assms by (simp add: syncVideos_bad_reference)
  moreover have "success ?r = False \<and> results ?r = [] \<and> (\<exists>m. error ?r = Some m \<and> m \<noteq> [])"
    by (simp add: message_nonempty)
  ultimately show ?thesis by blast
qed


theorem calculateConfidence_formula_witness:
  "calculateConfidence [0, 0] [1] [2, - 7] 1 = Num 0
   \<and> calculateConfidence [1, 0] [0, 1] [2, - 7] 1 = Num 7
   \<and> calculateConfidence [1, 0] [0, 1] [2, - 7] (- 1) = Num 7"
  using calculateConfidence_formula [of "[0, 0]" "[1]" "[2, - 7]" 1]
    calculateConfidence_formula [of "[1, 0]" "[0, 1]" "[2, - 7]" 1]
    calculateConfidence_formula [of "[1, 0]" "[0, 1]" "[2, - 7]" "- 1"]
  by simp



theorem syncVideos_precondition_failure_witness:
  "length [\<lparr> VideoInput.id' = None, originalStartTime = None \<rparr>] < 2
   \<and> (\<exists>r. (\<forall>w. syncVideos w [\<lparr> VideoInput.id' = None, originalStartTime = None \<rparr>]
                  \<lparr> referenceIndex = None, minConfidence = None, onProgress = None,
                    sampleRate = None, mono' = None, maxDuration = None \<rparr> = Some r)
            \<and> success r = False \<and> results r = []
            \<and> (\<exists>m. error r = Some m \<and> m \<noteq> []))"
  using syncVideos_precondition_failure [of "[\<lparr> VideoInput.id' = None, originalStartTime = None \<rparr>]"
    "\<lparr> referenceIndex = None, minConfidence = None, onProgress = None,
       sampleRate = None, mono' = None, maxDuration = None \<rparr>"]
  by simp

section \<open>The transforms compute the discrete Fourier transform\<close>

lemma root_power: "unityRoot n ^ k = cis (- 2 * pi * real k / real n)"
  by (simp add: unityRoot_def DeMoivre algebra_simps)

lemma cplx_twiddle: "cplx (twiddle k n) = unityRoot n ^ k"
  by (simp add: twiddle_def cplx_def Let_def root_power cis.code)

lemma root_unity: "0 < n \<Longrightarrow> unityRoot n ^ n = 1"
  by (simp add: root_power complex_eq_iff)

lemma root_double_sq: "0 < h \<Longrightarrow> unityRoot (2 * h) ^ 2 = unityRoot h"
  by (simp add: root_power) (simp add: unityRoot_def)

lemma root_double_half: "0 < h \<Longrightarrow> unityRoot (2 * h) ^ h = - 1"
  by (simp add: root_power complex_eq_iff)

lemma sum_even_odd:
  fixes g :: "nat \<Rightarrow> complex"
  shows "(\<Sum>j<2 * h. g j) = (\<Sum>i<h. g (2 * i)) + (\<Sum>i<h. g (2 * i + 1))"
  by (induction h) (simp_all add: algebra_simps)

lemma dft_lower:
  assumes "0 < h"
  shows "dft (2 * h) f k =
           dft h (\<lambda>i. f (2 * i)) k + unityRoot (2 * h) ^ k * dft h (\<lambda>i. f (2 * i + 1)) k"
proof -
  have e: "unityRoot (2 * h) ^ (2 * i * k) = unityRoot h ^ (i * k)" for i
    using root_double_sq [OF assms] by (metis power_mult mult.assoc)
  have o: "unityRoot (2 * h) ^ ((2 * i + 1) * k) = unityRoot (2 * h) ^ k * unityRoot h ^ (i * k)" for i
    using e [of i] by (simp add: algebra_simps power_add)
  show ?thesis
    unfolding dft_def sum_even_odd e o
    by (simp add: sum_distrib_left algebra_simps)
qed

lemma dft_upper:
  assumes "0 < h"
  shows "dft (2 * h) f (k + h) =
           dft h (\<lambda>i. f (2 * i)) k - unityRoot (2 * h) ^ k * dft h (\<lambda>i. f (2 * i + 1)) k"
proof -
  have p: "unityRoot h ^ (i * (k + h)) = unityRoot h ^ (i * k)" for i
  proof -
    have "unityRoot h ^ (i * (k + h)) = unityRoot h ^ (i * k) * (unityRoot h ^ h) ^ i"
      by (simp add: algebra_simps power_add power_mult)
    then show ?thesis using root_unity [OF assms] by simp
  qed
  have q: "unityRoot (2 * h) ^ (k + h) = - (unityRoot (2 * h) ^ k)"
    using root_double_half [OF assms] by (simp add: power_add)
  have "dft (2 * h) f (k + h) =
          dft h (\<lambda>i. f (2 * i)) (k + h) + unityRoot (2 * h) ^ (k + h) * dft h (\<lambda>i. f (2 * i + 1)) (k + h)"
    by (rule dft_lower [OF assms])
  also have "dft h (\<lambda>i. f (2 * i)) (k + h) = dft h (\<lambda>i. f (2 * i)) k"
    by (simp add: dft_def p)
  also have "dft h (\<lambda>i. f (2 * i + 1)) (k + h) = dft h (\<lambda>i. f (2 * i + 1)) k"
    by (simp add: dft_def p)
  finally show ?thesis by (simp add: q)
qed


lemma bitAnd32_power_of_two: "bitAnd32 (int (2 ^ m)) (int (2 ^ m) - 1) = 0"
proof -
  have "(2 ^ m :: 32 word) AND (2 ^ m - 1) = 0"
    by (rule bit_eqI) (auto simp: bit_simps simp flip: mask_eq_exp_minus_1)
  then show ?thesis by (simp add: bitAnd32_def)
qed

lemma length_butterfly [simp]: "length (butterfly n e od) = 2 * (n div 2)"
  by (simp add: butterfly_def Let_def)

lemma cplx_add: "cplx (a + b, c + d) = cplx (a, c) + cplx (b, d)"
  by (simp add: cplx_def complex_eq_iff)

lemma cplx_times:
  "cplx (fst u * fst v - snd u * snd v, fst u * snd v + snd u * fst v) = cplx u * cplx v"
  by (simp add: cplx_def complex_eq_iff)

lemma butterfly_lower:
  assumes "k < n div 2"
  shows "cplx (butterfly n e od ! k) = cplx (e ! k) + unityRoot n ^ k * cplx (od ! k)"
proof -
  have "cplx (butterfly n e od ! k) =
          cplx (e ! k) + cplx (twiddle k n) * cplx (od ! k)"
    using assms
    by (simp add: butterfly_def Let_def nth_append cplx_def complex_eq_iff)
  then show ?thesis by (simp add: cplx_twiddle)
qed

lemma butterfly_upper:
  assumes "k < n div 2"
  shows "cplx (butterfly n e od ! (k + n div 2)) = cplx (e ! k) - unityRoot n ^ k * cplx (od ! k)"
proof -
  have "cplx (butterfly n e od ! (k + n div 2)) =
          cplx (e ! k) - cplx (twiddle k n) * cplx (od ! k)"
    using assms
    by (simp add: butterfly_def Let_def nth_append cplx_def complex_eq_iff)
  then show ?thesis by (simp add: cplx_twiddle)
qed

lemma fftComplex_single: "length zs = 1 \<Longrightarrow> fftComplex zs = Some (Inr [zs ! 0])"
  by (subst fftComplex.simps) simp

lemma fftComplex_step:
  assumes "length zs = 2 ^ Suc m"
    and "fftComplex (map (\<lambda>i. zs ! (2 * i)) [0..<2 ^ m]) = Some (Inr e)"
    and "fftComplex (map (\<lambda>i. zs ! (2 * i + 1)) [0..<2 ^ m]) = Some (Inr od)"
  shows "fftComplex zs = Some (Inr (butterfly (2 ^ Suc m) e od))"
proof -
  have "bitAnd32 (int (length zs)) (int (length zs) - 1) = 0"
    using bitAnd32_power_of_two [of "Suc m"] assms(1) by simp
  moreover have "length zs \<noteq> 1" using assms(1) by simp
  moreover have "length zs div 2 = 2 ^ m" using assms(1) by simp
  ultimately show ?thesis
    using assms by (subst fftComplex.simps) (simp add: Let_def)
qed

lemma fftComplex_dft:
  assumes "length zs = 2 ^ m"
  shows "\<exists>ys. fftComplex zs = Some (Inr ys) \<and> length ys = 2 ^ m
             \<and> (\<forall>k<2 ^ m. cplx (ys ! k) = dft (2 ^ m) (\<lambda>j. cplx (zs ! j)) k)"
  using assms
proof (induction m arbitrary: zs)
  case 0
  then show ?case by (simp add: fftComplex_single dft_def)
next
  case (Suc m)
  let ?h = "2 ^ m :: nat"
  let ?ev = "map (\<lambda>i. zs ! (2 * i)) [0..<?h]"
  let ?od = "map (\<lambda>i. zs ! (2 * i + 1)) [0..<?h]"
  let ?f = "\<lambda>j. cplx (zs ! j)"
  from Suc.IH [of ?ev] obtain e where e: "fftComplex ?ev = Some (Inr e)" "length e = ?h"
    "\<forall>k<?h. cplx (e ! k) = dft ?h (\<lambda>j. cplx (?ev ! j)) k"
    by auto
  from Suc.IH [of ?od] obtain od where od: "fftComplex ?od = Some (Inr od)" "length od = ?h"
    "\<forall>k<?h. cplx (od ! k) = dft ?h (\<lambda>j. cplx (?od ! j)) k"
    by auto
  have ev_dft: "dft ?h (\<lambda>j. cplx (?ev ! j)) k = dft ?h (\<lambda>i. ?f (2 * i)) k" for k
    unfolding dft_def by (rule sum.cong) simp_all
  have od_dft: "dft ?h (\<lambda>j. cplx (?od ! j)) k = dft ?h (\<lambda>i. ?f (2 * i + 1)) k" for k
    unfolding dft_def by (rule sum.cong) simp_all
  have res: "fftComplex zs = Some (Inr (butterfly (2 ^ Suc m) e od))"
    using Suc.prems e(1) od(1) by (rule fftComplex_step)
  have half: "(2 ^ Suc m :: nat) div 2 = ?h" by simp
  have pos: "0 < ?h" by simp
  have "cplx (butterfly (2 ^ Suc m) e od ! k) = dft (2 ^ Suc m) ?f k" if "k < 2 ^ Suc m" for k
  proof (cases "k < ?h")
    case True
    then have "cplx (butterfly (2 ^ Suc m) e od ! k) =
                 cplx (e ! k) + unityRoot (2 ^ Suc m) ^ k * cplx (od ! k)"
      using butterfly_lower [of k "2 ^ Suc m" e od] half by simp
    also have "\<dots> = dft ?h (\<lambda>i. ?f (2 * i)) k + unityRoot (2 * ?h) ^ k * dft ?h (\<lambda>i. ?f (2 * i + 1)) k"
      using True e(3) od(3) ev_dft od_dft by simp
    also have "\<dots> = dft (2 * ?h) ?f k"
      by (rule dft_lower [OF pos, symmetric])
    finally show ?thesis by simp
  next
    case False
    define k' where "k' = k - ?h"
    have k': "k = k' + ?h" "k' < ?h" using False that by (simp_all add: k'_def)
    have "cplx (butterfly (2 ^ Suc m) e od ! (k' + ?h)) =
                 cplx (e ! k') - unityRoot (2 ^ Suc m) ^ k' * cplx (od ! k')"
      using butterfly_upper [of k' "2 ^ Suc m" e od] half k'(2) by simp
    also have "\<dots> = dft ?h (\<lambda>i. ?f (2 * i)) k' - unityRoot (2 * ?h) ^ k' * dft ?h (\<lambda>i. ?f (2 * i + 1)) k'"
      using k'(2) e(3) od(3) ev_dft od_dft by simp
    also have "\<dots> = dft (2 * ?h) ?f (k' + ?h)"
      by (rule dft_upper [OF pos, symmetric])
    finally show ?thesis using k'(1) by simp
  qed
  then show ?case using res by simp
qed


lemma fft_single: "length xs = 1 \<Longrightarrow> fft xs = Some (Inr [(xs ! 0, 0)])"
  by (subst fft.simps) simp

lemma fft_step:
  assumes "length xs = 2 ^ Suc m"
    and "fft (map (\<lambda>i. xs ! (2 * i)) [0..<2 ^ m]) = Some (Inr e)"
    and "fft (map (\<lambda>i. xs ! (2 * i + 1)) [0..<2 ^ m]) = Some (Inr od)"
  shows "fft xs = Some (Inr (butterfly (2 ^ Suc m) e od))"
proof -
  have "bitAnd32 (int (length xs)) (int (length xs) - 1) = 0"
    using bitAnd32_power_of_two [of "Suc m"] assms(1) by simp
  moreover have "length xs \<noteq> 1" using assms(1) by simp
  moreover have "length xs div 2 = 2 ^ m" using assms(1) by simp
  ultimately show ?thesis
    using assms by (subst fft.simps) (simp add: Let_def)
qed

lemma fft_eq_fftComplex:
  assumes "length xs = 2 ^ m"
  shows "fft xs = fftComplex (map (\<lambda>r. (r, 0)) xs)"
  using assms
proof (induction m arbitrary: xs)
  case 0
  then show ?case by (simp add: fft_single fftComplex_single)
next
  case (Suc m)
  let ?zs = "map (\<lambda>r. (r, 0 :: real)) xs"
  let ?h = "2 ^ m :: nat"
  have ev: "map (\<lambda>i. ?zs ! (2 * i)) [0..<?h] = map (\<lambda>r. (r, 0)) (map (\<lambda>i. xs ! (2 * i)) [0..<?h])"
    using Suc.prems by simp
  have od: "map (\<lambda>i. ?zs ! (2 * i + 1)) [0..<?h] = map (\<lambda>r. (r, 0)) (map (\<lambda>i. xs ! (2 * i + 1)) [0..<?h])"
    using Suc.prems by simp
  from fftComplex_dft [of "map (\<lambda>i. ?zs ! (2 * i)) [0..<?h]" m]
  obtain e where e: "fftComplex (map (\<lambda>i. ?zs ! (2 * i)) [0..<?h]) = Some (Inr e)" by auto
  from fftComplex_dft [of "map (\<lambda>i. ?zs ! (2 * i + 1)) [0..<?h]" m]
  obtain d where d: "fftComplex (map (\<lambda>i. ?zs ! (2 * i + 1)) [0..<?h]) = Some (Inr d)" by auto
  have "fft (map (\<lambda>i. xs ! (2 * i)) [0..<?h]) =
          fftComplex (map (\<lambda>r. (r, 0)) (map (\<lambda>i. xs ! (2 * i)) [0..<?h]))"
    by (rule Suc.IH) simp
  then have e': "fft (map (\<lambda>i. xs ! (2 * i)) [0..<?h]) = Some (Inr e)"
    unfolding ev [symmetric] e .
  have "fft (map (\<lambda>i. xs ! (2 * i + 1)) [0..<?h]) =
          fftComplex (map (\<lambda>r. (r, 0)) (map (\<lambda>i. xs ! (2 * i + 1)) [0..<?h]))"
    by (rule Suc.IH) simp
  then have d': "fft (map (\<lambda>i. xs ! (2 * i + 1)) [0..<?h]) = Some (Inr d)"
    unfolding od [symmetric] d .
  have "fft xs = Some (Inr (butterfly (2 ^ Suc m) e d))"
    using Suc.prems e' d' by (rule fft_step)
  moreover have "fftComplex ?zs = Some (Inr (butterfly (2 ^ Suc m) e d))"
    by (rule fftComplex_step [OF _ e d]) (simp add: Suc.prems)
  ultimately show ?case by simp
qed

text \<open>
  C8. For a real sequence \<open>x\<close> whose length is a power of two, \<open>fft x\<close> returns, and
  returns the very list that \<open>fftComplex\<close> returns for \<open>x\<close> with explicit zero
  imaginary parts.
\<close>

theorem fft_agrees_with_fftComplex:
  assumes "length x = 2 ^ m"
  shows "\<exists>ys. fft x = Some (Inr ys) \<and> fftComplex (map (\<lambda>r. (r, 0)) x) = Some (Inr ys)"
proof -
  from fftComplex_dft [of "map (\<lambda>r. (r, 0)) x" m] assms
  obtain ys where "fftComplex (map (\<lambda>r. (r, 0)) x) = Some (Inr ys)" by auto
  with fft_eq_fftComplex [OF assms] show ?thesis by simp
qed

lemma fft_empty: "fft [] = None"
proof (rule ccontr)
  assume "fft [] \<noteq> None"
  then obtain y where y: "fft [] = Some y" by auto
  have "xs \<noteq> []" if "fft xs = Some r" for xs r
  proof (rule fft.raw_induct [where P = "\<lambda>xs r. xs \<noteq> []", OF _ that], goal_cases)
    case (1 fft' input r)
    show ?case
    proof
      assume "input = []"
      with 1(2) have "Option.bind (fft' []) (\<lambda>evenFFT.
             case evenFFT of Inl e \<Rightarrow> Some (Inl e)
             | Inr evenFFT \<Rightarrow> Option.bind (fft' []) (\<lambda>oddFFT.
                 case oddFFT of Inl e \<Rightarrow> Some (Inl e)
                 | Inr oddFFT \<Rightarrow> Some (Inr (butterfly 0 evenFFT oddFFT)))) = Some r"
        by (simp add: bitAnd32_def)
      then obtain z where "fft' [] = Some z" by (cases "fft' []") auto
      with 1(1) show False by blast
    qed
  qed
  with y show False by blast
qed

lemma fftComplex_empty: "fftComplex [] = None"
proof (rule ccontr)
  assume "fftComplex [] \<noteq> None"
  then obtain y where y: "fftComplex [] = Some y" by auto
  have "zs \<noteq> []" if "fftComplex zs = Some r" for zs r
  proof (rule fftComplex.raw_induct [where P = "\<lambda>zs r. zs \<noteq> []", OF _ that], goal_cases)
    case (1 fft' input r)
    show ?case
    proof
      assume "input = []"
      with 1(2) have "Option.bind (fft' []) (\<lambda>evenFFT.
             case evenFFT of Inl e \<Rightarrow> Some (Inl e)
             | Inr evenFFT \<Rightarrow> Option.bind (fft' []) (\<lambda>oddFFT.
                 case oddFFT of Inl e \<Rightarrow> Some (Inl e)
                 | Inr oddFFT \<Rightarrow> Some (Inr (butterfly 0 evenFFT oddFFT)))) = Some r"
        by (simp add: bitAnd32_def)
      then obtain z where "fft' [] = Some z" by (cases "fft' []") auto
      with 1(1) show False by blast
    qed
  qed
  with y show False by blast
qed

text \<open>
  The guard of the transforms: for a length \<open>n\<close> with \<open>1 < n < 2 ^ 32\<close> that is not a
  power of two, \<open>n & (n - 1)\<close> is not 0 and the length error is raised at once.
\<close>

lemma and_pred_zero_power_of_two:
  fixes n :: nat
  assumes "0 < n" "n AND (n - 1) = 0"
  shows "\<exists>k. n = 2 ^ k"
  using assms
proof (induction n rule: less_induct)
  case (less n)
  show ?case
  proof (cases "even n")
    case True
    then obtain h where h: "n = 2 * h" by (elim evenE)
    with less.prems have hpos: "0 < h" by simp
    have "n - 1 = 2 * (h - 1) + 1" using h hpos by simp
    then have "n AND (n - 1) = 2 * (h AND (h - 1))"
      unfolding h by (subst and_nat_rec) simp
    with less.prems(2) have "h AND (h - 1) = 0" by simp
    moreover have "h < n" using h hpos by simp
    ultimately obtain k where "h = 2 ^ k" using less.IH hpos by blast
    then have "n = 2 ^ Suc k" using h by simp
    then show ?thesis by blast
  next
    case False
    then obtain h where h: "n = 2 * h + 1" by (elim oddE)
    have "n AND (n - 1) = 2 * (h AND h)"
      unfolding h by (subst and_nat_rec) simp
    with less.prems(2) have "h = 0" by simp
    then have "n = 2 ^ 0" using h by simp
    then show ?thesis by blast
  qed
qed

lemma bitAnd32_nonzero:
  fixes n :: nat
  assumes "0 < n" "n < 2 ^ 32" "\<nexists>k. n = 2 ^ k"
  shows "bitAnd32 (int n) (int n - 1) \<noteq> 0"
proof
  assume z: "bitAnd32 (int n) (int n - 1) = 0"
  define x where "x = n AND (n - 1)"
  have pred: "int n - 1 = int (n - 1)" using assms(1) by simp
  have "bitAnd32 (int n) (int n - 1) = sint (word_of_nat x :: 32 word)"
    unfolding pred by (simp add: bitAnd32_def x_def of_nat_and_eq)
  with z have "(word_of_nat x :: 32 word) = 0"
    by (simp add: signed_eq_0_iff)
  then have dvd: "2 ^ 32 dvd x"
    by (simp add: word_of_nat_eq_0_iff)
  have "int x = int n AND int (n - 1)"
    by (simp add: x_def of_nat_and_eq)
  also have "\<dots> \<le> int n"
    by (rule AND_upper1) simp
  finally have "x \<le> n" by simp
  with assms(2) have "x < 2 ^ 32" by simp
  with dvd have "x = 0"
    by (meson dvd_imp_le not_less zero_less_iff_neq_zero)
  with assms(1,3) and_pred_zero_power_of_two [of n] show False
    unfolding x_def by blast
qed

lemma fft_length_error:
  assumes "1 < length xs" "length xs < 2 ^ 32" "\<nexists>k. length xs = 2 ^ k"
  shows "fft xs = Some (Inl LengthError)"
proof -
  from assms(1) have "0 < length xs" by linarith
  then have "bitAnd32 (int (length xs)) (int (length xs) - 1) \<noteq> 0"
    using assms(2,3) by (rule bitAnd32_nonzero)
  moreover have "length xs \<noteq> 1" using assms(1) by simp
  ultimately show ?thesis
    by (subst fft.simps) (simp add: Let_def)
qed

lemma fftComplex_length_error:
  assumes "1 < length zs" "length zs < 2 ^ 32" "\<nexists>k. length zs = 2 ^ k"
  shows "fftComplex zs = Some (Inl LengthError)"
proof -
  from assms(1) have "0 < length zs" by linarith
  then have "bitAnd32 (int (length zs)) (int (length zs) - 1) \<noteq> 0"
    using assms(2,3) by (rule bitAnd32_nonzero)
  moreover have "length zs \<noteq> 1" using assms(1) by simp
  ultimately show ?thesis
    by (subst fftComplex.simps) (simp add: Let_def)
qed

text \<open>
  C2, at the empty sequence. Length 0 passes the guard (\<open>0 & -1 = 0\<close>), both halves
  are empty again, and neither transform ever returns: no length error is raised.
\<close>

theorem fft_empty_never_returns: "fft [] = None \<and> fftComplex [] = None"
  by (simp add: fft_empty fftComplex_empty)

theorem fft_agrees_with_fftComplex_witness:
  "length [1, 2, 3, 4 :: real] = 2 ^ 2
   \<and> (\<exists>ys. fft [1, 2, 3, 4] = Some (Inr ys)
            \<and> fftComplex (map (\<lambda>r. (r, 0)) [1, 2, 3, 4]) = Some (Inr ys))"
  using fft_agrees_with_fftComplex [of "[1, 2, 3, 4]" 2] by simp

section \<open>Roots of unity and the inverse transform\<close>

lemma int_multiple_between:
  fixes d n :: nat and m :: int
  assumes "0 < d" "d < n" "int d = m * int n"
  shows False
proof (cases "m \<le> 0")
  case True
  then have "m * int n \<le> 0" by (simp add: mult_nonpos_nonneg)
  with assms show False by simp
next
  case False
  then have "1 * int n \<le> m * int n" by (intro mult_right_mono) simp_all
  with assms show False by simp
qed

lemma root_ne_one:
  assumes "0 < d" "d < n"
  shows "unityRoot n ^ d \<noteq> 1"
proof
  assume "unityRoot n ^ d = 1"
  then have "Re (cis (- 2 * pi * real d / real n)) = 1"
    by (simp add: root_power)
  then have "cos (2 * pi * real d / real n) = 1"
    by simp
  then obtain m :: int where m: "2 * pi * real d / real n = of_int m * 2 * pi"
    using cos_one_2pi_int by blast
  have "real d = of_int m * real n"
    using m assms by (simp add: field_simps)
  then have "real_of_int (int d) = real_of_int (m * int n)"
    by simp
  then have "int d = m * int n"
    by (simp only: of_int_eq_iff)
  with assms show False by (rule int_multiple_between)
qed

lemma root_power_mod:
  assumes "0 < n"
  shows "unityRoot n ^ a = unityRoot n ^ (a mod n)"
proof -
  have "unityRoot n ^ a = unityRoot n ^ (n * (a div n) + a mod n)"
    by simp
  also have "\<dots> = (unityRoot n ^ n) ^ (a div n) * unityRoot n ^ (a mod n)"
    by (simp only: power_add power_mult)
  finally show ?thesis using root_unity [OF assms] by simp
qed

lemma root_power_one_iff:
  assumes "0 < n"
  shows "unityRoot n ^ a = 1 \<longleftrightarrow> n dvd a"
proof
  assume "unityRoot n ^ a = 1"
  then have "unityRoot n ^ (a mod n) = 1"
    using root_power_mod [OF assms, of a] by simp
  then have "\<not> 0 < a mod n"
    using root_ne_one [of "a mod n" n] assms by auto
  then show "n dvd a" by auto
next
  assume "n dvd a"
  then have "a mod n = 0" by simp
  then show "unityRoot n ^ a = 1"
    using root_power_mod [OF assms, of a] by simp
qed

lemma root_nonzero: "unityRoot n \<noteq> 0"
  by (simp add: unityRoot_def)

lemma cnj_root:
  assumes "0 < n"
  shows "cnj (unityRoot n) = unityRoot n ^ (n - 1)"
proof -
  have "unityRoot n * cnj (unityRoot n) = 1"
    by (simp add: unityRoot_def cis_cnj cis_mult)
  moreover have "unityRoot n * unityRoot n ^ (n - 1) = 1"
    using root_unity [OF assms] assms by (cases n) simp_all
  ultimately have "unityRoot n * cnj (unityRoot n) = unityRoot n * unityRoot n ^ (n - 1)"
    by simp
  then show ?thesis using root_nonzero [of n] by simp
qed

lemma dvd_shift:
  fixes n p q :: nat
  assumes "0 < n"
  shows "n dvd (p + (n - 1) * q) \<longleftrightarrow> p mod n = q mod n"
proof -
  have "(n - 1) * q + q = n * q"
    using assms by (cases n) simp_all
  then have "int ((n - 1) * q) + int q = int n * int q"
    by (metis of_nat_add of_nat_mult)
  then have e: "int (p + (n - 1) * q) = (int p - int q) + int n * int q"
    by simp
  have "n dvd (p + (n - 1) * q) \<longleftrightarrow> int n dvd int (p + (n - 1) * q)"
    by (simp only: int_dvd_int_iff)
  also have "\<dots> \<longleftrightarrow> int n dvd (int p - int q)"
    unfolding e by (rule dvd_add_left_iff) simp
  also have "\<dots> \<longleftrightarrow> int p mod int n = int q mod int n"
    by (simp add: mod_eq_dvd_iff)
  also have "\<dots> \<longleftrightarrow> p mod n = q mod n"
    by (simp only: zmod_int [symmetric] of_nat_eq_iff)
  finally show ?thesis .
qed

lemma orthogonality:
  assumes "0 < n"
  shows "(\<Sum>j<n. unityRoot n ^ (j * p) * cnj (unityRoot n) ^ (j * q)) =
           (if p mod n = q mod n then of_nat n else 0)"
proof -
  define x where "x = unityRoot n ^ (p + (n - 1) * q)"
  have tm: "unityRoot n ^ (j * p) * cnj (unityRoot n) ^ (j * q) = x ^ j" for j
    unfolding x_def cnj_root [OF assms]
    by (simp add: power_add power_mult [symmetric] algebra_simps)
  have x1: "x = 1 \<longleftrightarrow> p mod n = q mod n"
    unfolding x_def root_power_one_iff [OF assms] by (rule dvd_shift [OF assms])
  have xn: "x ^ n = 1"
    unfolding x_def power_mult [symmetric]
    by (simp add: root_power_one_iff [OF assms])
  show ?thesis
  proof (cases "p mod n = q mod n")
    case True
    then have "x = 1" using x1 by simp
    then show ?thesis using True by (simp add: tm)
  next
    case False
    then have "x \<noteq> 1" using x1 by simp
    then have "(\<Sum>j<n. x ^ j) = (x ^ n - 1) / (x - 1)"
      by (rule geometric_sum)
    then show ?thesis using False xn by (simp add: tm)
  qed
qed

lemma cplx_conj_scale:
  "cplx (case z of (re, im) \<Rightarrow> (re / real n, - (im / real n))) = cnj (cplx z) / of_nat n"
  by (cases z) (simp add: cplx_def complex_eq_iff)

lemma cplx_conj: "cplx (case z of (re, im) \<Rightarrow> (re, - im)) = cnj (cplx z)"
  by (cases z) (simp add: cplx_def complex_eq_iff)

lemma cplx_of_real: "cplx (r, 0) = of_real r"
  by (simp add: cplx_def complex_eq_iff)

lemma cplx_eq_of_real: "cplx z = of_real r \<Longrightarrow> z = (r, 0)"
  by (cases z) (simp add: cplx_def complex_eq_iff)

lemma ifft_dft:
  assumes "length zs = 2 ^ m"
  shows "\<exists>ys. ifft zs = Some (Inr ys) \<and> length ys = 2 ^ m
           \<and> (\<forall>k<2 ^ m. cplx (ys ! k) =
                 (\<Sum>j<2 ^ m. cplx (zs ! j) * cnj (unityRoot (2 ^ m)) ^ (j * k)) / of_nat (2 ^ m))"
proof -
  let ?cz = "map (\<lambda>(re, im). (re, - im)) zs"
  from fftComplex_dft [of ?cz m] assms
  obtain ys0 where ys0: "fftComplex ?cz = Some (Inr ys0)" "length ys0 = 2 ^ m"
    "\<forall>k<2 ^ m. cplx (ys0 ! k) = dft (2 ^ m) (\<lambda>j. cplx (?cz ! j)) k"
    by auto
  let ?ys = "map (\<lambda>(re, im). (re / real (length zs), - im / real (length zs))) ys0"
  have r: "ifft zs = Some (Inr ?ys)"
    using ys0(1) by (simp add: ifft_def Let_def)
  have "cplx (?ys ! k) =
          (\<Sum>j<2 ^ m. cplx (zs ! j) * cnj (unityRoot (2 ^ m)) ^ (j * k)) / of_nat (2 ^ m)"
    if k: "k < 2 ^ m" for k
  proof -
    have "cplx (?ys ! k) = cnj (cplx (ys0 ! k)) / of_real (real (length zs))"
      using k ys0(2) by (simp add: cplx_conj_scale)
    also have "cplx (ys0 ! k) = dft (2 ^ m) (\<lambda>j. cplx (?cz ! j)) k"
      using k ys0(3) by simp
    also have "\<dots> = (\<Sum>j<2 ^ m. cnj (cplx (zs ! j)) * unityRoot (2 ^ m) ^ (j * k))"
      unfolding dft_def using assms by (intro sum.cong) (simp_all add: cplx_conj)
    finally show ?thesis using assms by simp
  qed
  then show ?thesis using r ys0(2) by auto
qed

lemma dft_inversion:
  assumes "0 < n" "k < n"
  shows "(\<Sum>j<n. dft n f j * cnj (unityRoot n) ^ (j * k)) = of_nat n * f k"
proof -
  have "(\<Sum>j<n. dft n f j * cnj (unityRoot n) ^ (j * k)) =
          (\<Sum>j<n. \<Sum>l<n. f l * (unityRoot n ^ (j * l) * cnj (unityRoot n) ^ (j * k)))"
    unfolding dft_def by (simp add: sum_distrib_right mult.assoc mult.commute [of _ "j::nat" for j])
  also have "\<dots> = (\<Sum>l<n. \<Sum>j<n. f l * (unityRoot n ^ (j * l) * cnj (unityRoot n) ^ (j * k)))"
    by (rule sum.swap)
  also have "\<dots> = (\<Sum>l<n. f l * (if l mod n = k mod n then of_nat n else 0))"
    by (simp only: sum_distrib_left [symmetric] orthogonality [OF assms(1)])
  also have "\<dots> = (\<Sum>l<n. if l = k then f l * of_nat n else 0)"
    using assms by (intro sum.cong) auto
  also have "\<dots> = of_nat n * f k"
    using assms by simp
  finally show ?thesis .
qed

text \<open>
  C9. For a real sequence \<open>x\<close> whose length is a power of two, \<open>fft x\<close> returns some
  \<open>ys\<close>, and \<open>ifft ys\<close> returns \<open>x\<close> again, every sample with imaginary part 0
  (exactly, in real arithmetic).
\<close>

theorem ifft_fft_roundtrip:
  assumes "length x = 2 ^ m"
  shows "\<exists>ys. fft x = Some (Inr ys) \<and> ifft ys = Some (Inr (map (\<lambda>r. (r, 0)) x))"
proof -
  let ?n = "2 ^ m :: nat"
  let ?f = "\<lambda>l. complex_of_real (x ! l)"
  from fftComplex_dft [of "map (\<lambda>r. (r, 0)) x" m] assms
  obtain ys where ys: "fftComplex (map (\<lambda>r. (r, 0)) x) = Some (Inr ys)" "length ys = ?n"
    "\<forall>k<?n. cplx (ys ! k) = dft ?n (\<lambda>j. cplx (map (\<lambda>r. (r, 0)) x ! j)) k"
    by auto
  have fx: "fft x = Some (Inr ys)"
    using fft_eq_fftComplex [OF assms] ys(1) by simp
  have ysk: "cplx (ys ! k) = dft ?n ?f k" if "k < ?n" for k
  proof -
    have "dft ?n (\<lambda>j. cplx (map (\<lambda>r. (r, 0)) x ! j)) k = dft ?n ?f k"
      unfolding dft_def using assms by (intro sum.cong) (simp_all add: cplx_of_real)
    then show ?thesis using ys(3) that by simp
  qed
  from ifft_dft [OF ys(2)]
  obtain zs where zs: "ifft ys = Some (Inr zs)" "length zs = ?n"
    "\<forall>k<?n. cplx (zs ! k) =
        (\<Sum>j<?n. cplx (ys ! j) * cnj (unityRoot ?n) ^ (j * k)) / of_nat ?n"
    by auto
  have "zs ! k = (x ! k, 0)" if k: "k < ?n" for k
  proof -
    have "(\<Sum>j<?n. cplx (ys ! j) * cnj (unityRoot ?n) ^ (j * k)) =
            (\<Sum>j<?n. dft ?n ?f j * cnj (unityRoot ?n) ^ (j * k))"
      by (intro sum.cong) (simp_all add: ysk)
    also have "\<dots> = of_nat ?n * ?f k"
      by (rule dft_inversion) (simp_all add: k)
    finally have "cplx (zs ! k) = ?f k"
      using zs(3) k by simp
    then show ?thesis by (rule cplx_eq_of_real)
  qed
  then have "zs = map (\<lambda>r. (r, 0)) x"
    using zs(2) assms by (intro nth_equalityI) simp_all
  with fx zs(1) show ?thesis by simp
qed

section \<open>The padded length and the correlation sequence\<close>

lemma shiftLeft32_one: "shiftLeft32 1 k = signed_take_bit 31 (2 ^ nat (k mod 32))"
proof -
  have "shiftLeft32 1 k = sint (word_of_int (2 ^ nat (k mod 32)) :: 32 word)"
    by (simp add: shiftLeft32_def push_bit_eq_mult)
  also have "\<dots> = signed_take_bit (LENGTH(32) - 1) (2 ^ nat (k mod 32))"
    by (rule sint_sbintrunc')
  finally show ?thesis by simp
qed

lemma shiftLeft32_one_small:
  assumes "0 \<le> k" "k \<le> 30"
  shows "shiftLeft32 1 k = 2 ^ nat k"
proof -
  have "k mod 32 = k" using assms by simp
  moreover have "(2::int) ^ nat k < 2 ^ 31"
    using assms by (intro power_strict_increasing) simp_all
  moreover have "- (2 ^ 31) \<le> (2::int) ^ nat k"
    by (rule order_trans [of _ 0]) simp_all
  ultimately show ?thesis
    by (simp add: shiftLeft32_one signed_take_bit_int_eq_self)
qed

lemma shiftLeft32_one_cases:
  "shiftLeft32 1 k < 0 \<or> (\<exists>j\<le>30. shiftLeft32 1 k = 2 ^ j)"
proof -
  define j where "j = nat (k mod 32)"
  have j: "j < 32" by (simp add: j_def nat_less_iff)
  show ?thesis
  proof (cases "j = 31")
    case True
    then have "shiftLeft32 1 k = signed_take_bit 31 (2 ^ 31)"
      using shiftLeft32_one [of k] by (simp add: j_def)
    then show ?thesis by simp
  next
    case False
    with j have j30: "j \<le> 30" by simp
    then have "(2::int) ^ j < 2 ^ 31"
      by (intro power_strict_increasing) simp_all
    moreover have "- (2 ^ 31) \<le> (2::int) ^ j"
      by (rule order_trans [of _ 0]) simp_all
    ultimately have "shiftLeft32 1 k = 2 ^ j"
      using shiftLeft32_one [of k] by (simp add: j_def signed_take_bit_int_eq_self)
    with j30 show ?thesis by blast
  qed
qed

lemma nextPowerOfTwo_cases:
  "nextPowerOfTwo n < 0 \<or> (\<exists>j\<le>30. nextPowerOfTwo n = 2 ^ j)"
proof (cases "n \<le> 0")
  case True
  then have "nextPowerOfTwo n = 2 ^ 0" by (simp add: nextPowerOfTwo_def)
  then show ?thesis by blast
next
  case False
  then show ?thesis
    using shiftLeft32_one_cases [of "\<lceil>log 2 (real_of_int n)\<rceil>"]
    by (simp add: nextPowerOfTwo_def)
qed

lemma ceiling_log_ceillog2:
  assumes "0 < n"
  shows "\<lceil>log 2 (real_of_int n)\<rceil> = int (ceillog2 (nat n))"
proof -
  have "real_of_int n = real (nat n)" using assms by simp
  moreover have "0 \<le> \<lceil>log 2 (real (nat n))\<rceil>"
  proof -
    have "1 \<le> real (nat n)" using assms by simp
    then have "0 \<le> log 2 (real (nat n))" by simp
    then show ?thesis by (simp add: zero_le_ceiling)
  qed
  ultimately show ?thesis using assms by (simp add: ceillog2_def)
qed

lemma nextPowerOfTwo_bounded:
  assumes "0 < n" "n \<le> 2 ^ 30"
  shows "nextPowerOfTwo n = 2 ^ ceillog2 (nat n)" and "n \<le> nextPowerOfTwo n"
proof -
  have "nat n \<le> 2 ^ 30" using assms by (simp add: nat_le_iff)
  then have le: "ceillog2 (nat n) \<le> 30"
    using assms by (simp add: ceillog2_le_iff)
  then show eq: "nextPowerOfTwo n = 2 ^ ceillog2 (nat n)"
    using assms
    by (simp add: nextPowerOfTwo_def ceiling_log_ceillog2 shiftLeft32_one_small)
  have "nat n \<le> 2 ^ ceillog2 (nat n)" by (rule le_two_power_ceillog2)
  then have "int (nat n) \<le> int (2 ^ ceillog2 (nat n))" by (simp only: of_nat_le_iff)
  then show "n \<le> nextPowerOfTwo n" using assms eq by simp
qed

lemma fft_power_of_two:
  assumes "length xs = 2 ^ m"
  shows "\<exists>ys. fft xs = Some (Inr ys) \<and> length ys = 2 ^ m
           \<and> (\<forall>k<2 ^ m. cplx (ys ! k) = dft (2 ^ m) (\<lambda>j. of_real (xs ! j)) k)"
proof -
  from fftComplex_dft [of "map (\<lambda>r. (r, 0)) xs" m] assms
  obtain ys where ys: "fftComplex (map (\<lambda>r. (r, 0)) xs) = Some (Inr ys)" "length ys = 2 ^ m"
    "\<forall>k<2 ^ m. cplx (ys ! k) = dft (2 ^ m) (\<lambda>j. cplx (map (\<lambda>r. (r, 0)) xs ! j)) k"
    by auto
  have "dft (2 ^ m) (\<lambda>j. cplx (map (\<lambda>r. (r, 0)) xs ! j)) k = dft (2 ^ m) (\<lambda>j. of_real (xs ! j)) k" for k
    unfolding dft_def using assms by (intro sum.cong) (simp_all add: cplx_of_real)
  with ys fft_eq_fftComplex [OF assms] show ?thesis by simp
qed

lemma dft_inversion_mod:
  assumes "0 < n"
  shows "(\<Sum>j<n. dft n f j * cnj (unityRoot n) ^ (j * q)) = of_nat n * f (q mod n)"
proof -
  have "(\<Sum>j<n. dft n f j * cnj (unityRoot n) ^ (j * q)) =
          (\<Sum>j<n. \<Sum>l<n. f l * (unityRoot n ^ (j * l) * cnj (unityRoot n) ^ (j * q)))"
    unfolding dft_def by (simp add: sum_distrib_right mult.assoc mult.commute [of _ "j::nat" for j])
  also have "\<dots> = (\<Sum>l<n. \<Sum>j<n. f l * (unityRoot n ^ (j * l) * cnj (unityRoot n) ^ (j * q)))"
    by (rule sum.swap)
  also have "\<dots> = (\<Sum>l<n. f l * (if l mod n = q mod n then of_nat n else 0))"
    by (simp only: sum_distrib_left [symmetric] orthogonality [OF assms(1)])
  also have "\<dots> = (\<Sum>l<n. if l = q mod n then f l * of_nat n else 0)"
    using assms by (intro sum.cong) auto
  also have "\<dots> = of_nat n * f (q mod n)"
    using assms by simp
  finally show ?thesis .
qed

lemma cnj_dft_real:
  "cnj (dft n (\<lambda>j. of_real (g j)) k) = (\<Sum>l<n. of_real (g l) * cnj (unityRoot n) ^ (l * k))"
  by (simp add: dft_def)

lemma correlation_identity:
  assumes "0 < n"
  shows "(\<Sum>k<n. dft n (\<lambda>j. of_real (f j)) k * cnj (dft n (\<lambda>j. of_real (g j)) k)
                  * cnj (unityRoot n) ^ (k * m)) =
           of_nat n * of_real (\<Sum>l<n. f ((l + m) mod n) * g l)"
proof -
  let ?F = "dft n (\<lambda>j. complex_of_real (f j))"
  let ?w = "cnj (unityRoot n)"
  have "(\<Sum>k<n. ?F k * cnj (dft n (\<lambda>j. of_real (g j)) k) * ?w ^ (k * m)) =
          (\<Sum>k<n. \<Sum>l<n. of_real (g l) * (?F k * ?w ^ (k * (l + m))))"
    unfolding cnj_dft_real
    by (simp add: sum_distrib_left sum_distrib_right power_add algebra_simps)
  also have "\<dots> = (\<Sum>l<n. \<Sum>k<n. of_real (g l) * (?F k * ?w ^ (k * (l + m))))"
    by (rule sum.swap)
  also have "\<dots> = (\<Sum>l<n. of_real (g l) * (of_nat n * of_real (f ((l + m) mod n))))"
    by (simp only: sum_distrib_left [symmetric] dft_inversion_mod [OF assms])
  also have "\<dots> = of_nat n * of_real (\<Sum>l<n. f ((l + m) mod n) * g l)"
    by (simp add: sum_distrib_left algebra_simps)
  finally show ?thesis .
qed

lemma cplx_mult_conj:
  "cplx (fst a * fst b + snd a * snd b, snd a * fst b - fst a * snd b) = cplx a * cnj (cplx b)"
  by (simp add: cplx_def complex_eq_iff)

lemma fst_Re_cplx: "fst z = Re (cplx z)"
  by (simp add: cplx_def)

lemma padToPowerOfTwo_ok:
  assumes "int (length arr) \<le> int n"
  shows "padToPowerOfTwo arr (int n) = Inr (arr @ replicate (n - length arr) 0)"
  using assms by (simp add: padToPowerOfTwo_def)

lemma padToPowerOfTwo_error:
  assumes "n < 0 \<or> n < int (length arr)"
  shows "padToPowerOfTwo arr n = Inl RangeError"
  using assms by (auto simp: padToPowerOfTwo_def)

lemma crossCorrelate_range_error:
  assumes "nextPowerOfTwo (int (length a) + int (length b) - 1) < 0
           \<or> nextPowerOfTwo (int (length a) + int (length b) - 1) < int (length a)
           \<or> nextPowerOfTwo (int (length a) + int (length b) - 1) < int (length b)"
  shows "crossCorrelate a b = Some (Inl RangeError)"
proof -
  let ?n = "nextPowerOfTwo (int (length a) + int (length b) - 1)"
  show ?thesis
  proof (cases "?n < 0 \<or> ?n < int (length a)")
    case True
    then have "padToPowerOfTwo a ?n = Inl RangeError" by (rule padToPowerOfTwo_error)
    then show ?thesis by (simp add: crossCorrelate_def Let_def)
  next
    case False
    then have "padToPowerOfTwo a ?n = Inr (a @ replicate (nat ?n - length a) 0)"
      by (simp add: padToPowerOfTwo_def)
    moreover have "padToPowerOfTwo b ?n = Inl RangeError"
      using False assms by (intro padToPowerOfTwo_error) simp
    ultimately show ?thesis by (simp add: crossCorrelate_def Let_def)
  qed
qed

lemma crossCorrelate_value:
  assumes n: "nextPowerOfTwo (int (length a) + int (length b) - 1) = 2 ^ j"
    and la: "length a \<le> 2 ^ j" and lb: "length b \<le> 2 ^ j"
  shows "\<exists>c. crossCorrelate a b = Some (Inr c) \<and> length c = 2 ^ j
           \<and> (\<forall>m<2 ^ j. c ! m =
                 (\<Sum>l<2 ^ j. (a @ replicate (2 ^ j - length a) 0) ! ((l + m) mod 2 ^ j)
                               * (b @ replicate (2 ^ j - length b) 0) ! l))"
proof -
  let ?N = "2 ^ j :: nat"
  let ?A = "a @ replicate (?N - length a) 0"
  let ?B = "b @ replicate (?N - length b) 0"
  have n': "nextPowerOfTwo (int (length a) + int (length b) - 1) = int ?N"
    using n by simp
  have padA: "padToPowerOfTwo a (int ?N) = Inr ?A"
    using la by (intro padToPowerOfTwo_ok) simp
  have padB: "padToPowerOfTwo b (int ?N) = Inr ?B"
    using lb by (intro padToPowerOfTwo_ok) simp
  have lenA: "length ?A = ?N" using la by simp
  have lenB: "length ?B = ?N" using lb by simp
  from fft_power_of_two [OF lenA] obtain fa where fa: "fft ?A = Some (Inr fa)" "length fa = ?N"
    "\<forall>k<?N. cplx (fa ! k) = dft ?N (\<lambda>j. of_real (?A ! j)) k"
    by blast
  from fft_power_of_two [OF lenB] obtain fb where fb: "fft ?B = Some (Inr fb)" "length fb = ?N"
    "\<forall>k<?N. cplx (fb ! k) = dft ?N (\<lambda>j. of_real (?B ! j)) k"
    by blast
  let ?product = "map (\<lambda>i. let a = fa ! i; b = fb ! i in
                           (fst a * fst b + snd a * snd b, snd a * fst b - fst a * snd b))
                        [0..<length fa]"
  have lenP: "length ?product = ?N" using fa(2) by simp
  have prod: "cplx (?product ! k) =
                dft ?N (\<lambda>j. of_real (?A ! j)) k * cnj (dft ?N (\<lambda>j. of_real (?B ! j)) k)"
    if "k < ?N" for k
    using that fa(2,3) fb(3) by (simp add: Let_def cplx_mult_conj)
  from ifft_dft [OF lenP] obtain corr where corr: "ifft ?product = Some (Inr corr)"
    "length corr = ?N"
    "\<forall>k<?N. cplx (corr ! k) =
        (\<Sum>i<?N. cplx (?product ! i) * cnj (unityRoot ?N) ^ (i * k)) / of_nat ?N"
    by blast
  let ?c = "map (\<lambda>i. fst (corr ! i)) [0..<?N]"
  have res: "crossCorrelate a b = Some (Inr ?c)"
    unfolding crossCorrelate_def n'
    using padA padB fa(1) fb(1) corr(1) by (simp add: Let_def nat_power_eq)
  have val: "?c ! m = (\<Sum>l<?N. ?A ! ((l + m) mod ?N) * ?B ! l)" if m: "m < ?N" for m
  proof -
    have "(\<Sum>i<?N. cplx (?product ! i) * cnj (unityRoot ?N) ^ (i * m)) =
            (\<Sum>i<?N. dft ?N (\<lambda>j. of_real (?A ! j)) i * cnj (dft ?N (\<lambda>j. of_real (?B ! j)) i)
                        * cnj (unityRoot ?N) ^ (i * m))"
      by (intro sum.cong refl) (simp only: prod lessThan_iff)
    also have "\<dots> = of_nat ?N * of_real (\<Sum>l<?N. ?A ! ((l + m) mod ?N) * ?B ! l)"
      by (rule correlation_identity) simp
    finally have "cplx (corr ! m) = of_real (\<Sum>l<?N. ?A ! ((l + m) mod ?N) * ?B ! l)"
      using corr(3) m by simp
    then have "Re (cplx (corr ! m)) = (\<Sum>l<?N. ?A ! ((l + m) mod ?N) * ?B ! l)"
      by (simp only: Re_complex_of_real)
    then show ?thesis using m by (simp add: fst_Re_cplx)
  qed
  show ?thesis using res val by (intro exI [of _ ?c]) simp
qed

theorem ifft_fft_roundtrip_witness:
  "length [1, 2, 3, 4 :: real] = 2 ^ 2
   \<and> (\<exists>ys. fft [1, 2, 3, 4] = Some (Inr ys)
            \<and> ifft ys = Some (Inr (map (\<lambda>r. (r, 0)) [1, 2, 3, 4])))"
  using ifft_fft_roundtrip [of "[1, 2, 3, 4]" 2] by simp

lemma crossCorrelate_returns:
  assumes "a \<noteq> []" "b \<noteq> []" "length a + length b - 1 \<le> 2 ^ 30"
  shows "\<exists>c j. crossCorrelate a b = Some (Inr c) \<and> length c = 2 ^ j
            \<and> nextPowerOfTwo (int (length a) + int (length b) - 1) = 2 ^ j
            \<and> length a + length b - 1 \<le> 2 ^ j"
proof -
  define t where "t = length a + length b - 1"
  define j where "j = ceillog2 t"
  have la: "1 \<le> length a" and lb: "1 \<le> length b"
    using assms(1,2) by (simp_all add: Suc_le_eq)
  have t: "int (length a) + int (length b) - 1 = int t"
    using la by (simp add: t_def)
  have pos: "0 < int t" using la lb by (simp add: t_def)
  have "int t \<le> int (2 ^ 30)"
    using assms(3) unfolding t_def by (simp only: of_nat_le_iff)
  then have le: "int t \<le> 2 ^ 30" by simp
  have n: "nextPowerOfTwo (int t) = 2 ^ j"
    using nextPowerOfTwo_bounded(1) [OF pos le] by (simp add: j_def)
  have ge: "t \<le> 2 ^ j"
    unfolding j_def by (rule le_two_power_ceillog2)
  then have "length a \<le> 2 ^ j" "length b \<le> 2 ^ j"
    using la lb by (simp_all add: t_def)
  from crossCorrelate_value [OF n [folded t] this]
  obtain c where "crossCorrelate a b = Some (Inr c)" "length c = 2 ^ j" by blast
  with n ge show ?thesis unfolding t by (auto simp: t_def)
qed





text \<open>
  The bound is exact: for non-empty inputs \<open>crossCorrelate\<close> returns a sequence if and
  only if \<open>len a + len b - 1 \<le> 2 ^ 30\<close>.
\<close>

lemma nextPowerOfTwo_wraps_range:
  assumes "2 ^ 30 < n" "n \<le> 2 ^ 31"
  shows "nextPowerOfTwo n = - 2147483648"
proof -
  have pos: "0 < n" using assms(1) by simp
  have n: "nat n \<le> 2 ^ 31" "2 ^ 30 < nat n" using assms by simp_all
  have "ceillog2 (nat n) \<le> 31"
    using n(1) pos by (subst ceillog2_le_iff) simp_all
  moreover have "31 \<le> ceillog2 (nat n)"
    using n(2) pos by (subst ceillog2_ge_iff) simp_all
  ultimately have "ceillog2 (nat n) = 31" by simp
  then have "\<lceil>log 2 (real_of_int n)\<rceil> = 31"
    using ceiling_log_ceillog2 [OF pos] by simp
  then show ?thesis
    using pos by (simp add: nextPowerOfTwo_def shiftLeft32_def)
qed

lemma crossCorrelate_returns_iff:
  assumes "a \<noteq> []" "b \<noteq> []"
  shows "(\<exists>c. crossCorrelate a b = Some (Inr c)) \<longleftrightarrow> length a + length b - 1 \<le> 2 ^ 30"
proof
  assume "length a + length b - 1 \<le> 2 ^ 30"
  with crossCorrelate_returns [OF assms] show "\<exists>c. crossCorrelate a b = Some (Inr c)"
    by blast
next
  assume "\<exists>c. crossCorrelate a b = Some (Inr c)"
  then obtain c where c: "crossCorrelate a b = Some (Inr c)" by blast
  let ?t = "int (length a) + int (length b) - 1"
  have ok: "\<not> (nextPowerOfTwo ?t < 0 \<or> nextPowerOfTwo ?t < int (length a)
              \<or> nextPowerOfTwo ?t < int (length b))"
    using crossCorrelate_range_error [of a b] c by auto
  with nextPowerOfTwo_cases [of ?t]
  obtain j where j: "j \<le> 30" "nextPowerOfTwo ?t = 2 ^ j" by auto
  have "(2::int) ^ j \<le> 2 ^ 30"
    using j(1) by (intro power_increasing) simp_all
  moreover have "int (length a) \<le> nextPowerOfTwo ?t" "int (length b) \<le> nextPowerOfTwo ?t"
    using ok by linarith+
  ultimately have le: "int (length a) \<le> 2 ^ 30" "int (length b) \<le> 2 ^ 30"
    unfolding j(2) by linarith+
  show "length a + length b - 1 \<le> 2 ^ 30"
  proof (rule ccontr)
    assume "\<not> length a + length b - 1 \<le> 2 ^ 30"
    then have "2 ^ 30 < ?t" by simp
    moreover have "?t \<le> 2 ^ 31" using le by simp
    ultimately have "nextPowerOfTwo ?t = - 2147483648"
      by (rule nextPowerOfTwo_wraps_range)
    with ok show False by simp
  qed
qed

section \<open>The sign of the offset of a delayed copy\<close>

lemma sum_lessThan_as_list: "(\<Sum>l<n. f l) = sum_list (map f [0..<n])" for f :: "nat \<Rightarrow> real"
  by (simp add: interv_sum_list_conv_sum_set_nat lessThan_atLeast0)

lemma upt_16: "[0..<16] = [0, 1, 2, 3, 4, 5, 6, 7, 8, 9, 10, 11, 12, 13, 14, 15 :: nat]"
  by (simp add: upt_rec [of 0] upt_rec [of "Suc _"] upt_rec [of "numeral _"])

lemma replicate_8: "replicate 8 (0::real) = [0, 0, 0, 0, 0, 0, 0, 0]"
  by (simp add: eval_nat_numeral)

lemma nextPowerOfTwo_15: "nextPowerOfTwo 15 = 2 ^ 4"
proof -
  have "ceillog2 15 \<le> 4" by (subst ceillog2_le_iff) simp_all
  moreover have "4 \<le> ceillog2 15" by (subst ceillog2_ge_iff) simp_all
  ultimately have "ceillog2 15 = 4" by simp
  with nextPowerOfTwo_bounded(1) [of 15] show ?thesis by simp
qed

lemma delayed_impulse_correlation:
  "crossCorrelate [1, 0, 0, 0, 0, 0, 0, 0] [0, 0, 1, 0, 0, 0, 0, 0] =
     Some (Inr [0, 0, 0, 0, 0, 0, 0, 0, 0, 0, 0, 0, 0, 0, 1, 0])"
proof -
  let ?a = "[1, 0, 0, 0, 0, 0, 0, 0] :: real list"
  let ?b = "[0, 0, 1, 0, 0, 0, 0, 0] :: real list"
  have n: "nextPowerOfTwo (int (length ?a) + int (length ?b) - 1) = 2 ^ 4"
    using nextPowerOfTwo_15 by simp
  from crossCorrelate_value [OF n]
  obtain c where c: "crossCorrelate ?a ?b = Some (Inr c)" "length c = 2 ^ 4"
    "\<forall>m<2 ^ 4. c ! m =
        (\<Sum>l<2 ^ 4. (?a @ replicate (2 ^ 4 - length ?a) 0) ! ((l + m) mod 2 ^ 4)
                               * (?b @ replicate (2 ^ 4 - length ?b) 0) ! l)"
    by auto
  have "c = map (\<lambda>m. c ! m) [0..<16]"
    using c(2) map_nth [of c] by simp
  also have "\<dots> = map (\<lambda>m. \<Sum>l<16. (?a @ replicate 8 0) ! ((l + m) mod 16)
                               * (?b @ replicate 8 0) ! l) [0..<16]"
    using c(3) by (intro map_cong refl) simp
  also have "\<dots> = [0, 0, 0, 0, 0, 0, 0, 0, 0, 0, 0, 0, 0, 0, 1, 0]"
    by (simp add: sum_lessThan_as_list upt_16 replicate_8)
  finally show ?thesis using c(1) by simp
qed

text \<open>
  C1, at a unit impulse. \<open>b\<close> is \<open>a\<close> shifted right by 2 samples with zero fill
  (\<open>b\<close> lags \<open>a\<close> by 2); the peak of the correlation sequence is at index 14 of 16,
  and the offset returned is \<open>- 2\<close>, not \<open>2\<close>.
\<close>

theorem delayed_copy_offset_is_negative:
  "\<exists>c. crossCorrelate [1, 0, 0, 0, 0, 0, 0, 0] [0, 0, 1, 0, 0, 0, 0, 0] = Some (Inr c)
       \<and> findPeakOffset c (int (length [0, 0, 1, 0, 0, 0, 0, 0 :: real])) = - 2"
proof -
  have "findPeakOffset [0, 0, 0, 0, 0, 0, 0, 0, 0, 0, 0, 0, 0, 0, 1, 0] 8 = - 2"
    by (simp add: findPeakOffset_def peakScan_def scanStep_def gtMax_def upt_16)
  then show ?thesis using delayed_impulse_correlation by simp
qed

text \<open>
  Whatever the sign convention, the offset cannot be 2 for every \<open>a\<close>: a silent \<open>a\<close>
  and its shifted copy give a flat correlation sequence and the offset 0.
\<close>

lemma findPeakOffset_flat:
  assumes "c \<noteq> []" "\<forall>j<length c. c ! j = c ! 0"
  shows "findPeakOffset c l = 0"
proof -
  from peakScan_first_maximum [OF assms(1)] obtain i where i: "i < length c"
    "snd (peakScan c) = i" "\<forall>j<i. c ! j < c ! i"
    by blast
  have "i = 0"
  proof (rule ccontr)
    assume "i \<noteq> 0"
    then have "c ! 0 < c ! i" using i(3) by simp
    with assms(2) i(1) show False by simp
  qed
  with i(2) show ?thesis by (simp add: findPeakOffset_def)
qed

lemma silent_copy_offset_is_zero:
  "\<exists>c. crossCorrelate (replicate 8 0) (replicate 8 0) = Some (Inr c)
       \<and> findPeakOffset c (int (length (replicate 8 (0::real)))) = 0"
proof -
  let ?z = "replicate 8 (0::real)"
  have n: "nextPowerOfTwo (int (length ?z) + int (length ?z) - 1) = 2 ^ 4"
    using nextPowerOfTwo_15 by simp
  from crossCorrelate_value [OF n]
  obtain c where c: "crossCorrelate ?z ?z = Some (Inr c)" "length c = 2 ^ 4"
    "\<forall>m<2 ^ 4. c ! m =
        (\<Sum>l<2 ^ 4. (?z @ replicate (2 ^ 4 - length ?z) 0) ! ((l + m) mod 2 ^ 4)
                               * (?z @ replicate (2 ^ 4 - length ?z) 0) ! l)"
    by auto
  have pad: "?z @ replicate (2 ^ 4 - length ?z) 0 = replicate 16 0"
    by (simp flip: replicate_add)
  have "c ! m = 0" if "m < length c" for m
  proof -
    have "c ! m = (\<Sum>l<2 ^ 4. replicate 16 (0::real) ! ((l + m) mod 2 ^ 4) * replicate 16 0 ! l)"
      using that c(2,3) unfolding pad by simp
    also have "\<dots> = 0"
      by (intro sum.neutral) simp
    finally show ?thesis .
  qed
  then have "\<forall>j<length c. c ! j = c ! 0"
    using c(2) by simp
  moreover have "c \<noteq> []" using c(2) by auto
  ultimately have "findPeakOffset c (int (length ?z)) = 0"
    by (intro findPeakOffset_flat)
  with c(1) show ?thesis by blast
qed

section \<open>The success policy of the aligner\<close>













end
